theory Spec2Isabelle
  imports Complex_Main
begin

section \<open>Retry with exponential backoff\<close>

text \<open>
  The helper of \<^verbatim>\<open>chatbot.ts\<close> (lines 120 to 133):
  \<^verbatim>\<open>
  async function retryWithBackoff(fn: () => Promise<any>, maxRetries = 3, initialDelay = 1000) {
      let retries = 0;
      while (retries < maxRetries) {
          try {
              return await fn();
          } catch (error) {
              retries++;
              if (retries === maxRetries) throw error;
              const delay = initialDelay * Math.pow(2, retries);
              console.log(`Retry ${retries} after ${delay}ms`);
              await new Promise(resolve => setTimeout(resolve, delay));
          }
      }
  }
  \<close>
  The wrapped operation is effectful: it is a function from the state of the outside
  world to its outcome (\<open>Inl\<close> a rejection, \<open>Inr\<close> the resolved value) and the next
  state. The counter \<open>retries\<close> starts at zero and is only incremented, so it is a
  natural number. The parameters \<open>maxRetries\<close> and \<open>initialDelay\<close> are JavaScript
  numbers: nothing makes them whole or positive. Every finite double is a rational
  number, and the two parameters are rationals here, so that the loop test
  \<^verbatim>\<open>retries < maxRetries\<close> and the comparison \<^verbatim>\<open>retries === maxRetries\<close> are those of the
  code also at a budget such as 1.5. Arithmetic is exact; the rounding of doubles,
  \<^verbatim>\<open>NaN\<close> and the infinities are outside the model.

  What the function does besides returning is recorded in order: each invocation of
  the operation, each console line and each timer it waits for.
\<close>

datatype ('e, 'a) completion =
    Returned 'a          \<comment> \<open>\<^verbatim>\<open>return await fn()\<close>\<close>
  | Raised 'e            \<comment> \<open>\<^verbatim>\<open>throw error\<close>\<close>
  | ReturnedUndefined    \<comment> \<open>the loop ends and the function body falls off its end\<close>

datatype retry_event =
    Invoked              \<comment> \<open>\<^verbatim>\<open>fn()\<close> was called\<close>
  | LoggedRetry nat rat  \<comment> \<open>\<^verbatim>\<open>console.log(`Retry ${retries} after ${delay}ms`)\<close>\<close>
  | Waited rat           \<comment> \<open>\<^verbatim>\<open>await new Promise(resolve => setTimeout(resolve, delay))\<close>\<close>

type_synonym ('s, 'e, 'a) operation = "'s \<Rightarrow> ('e + 'a) \<times> 's"

type_synonym ('s, 'e, 'a) retry_run = "('e, 'a) completion \<times> 's \<times> retry_event list"

function retryLoop ::
  "('s, 'e, 'a) operation \<Rightarrow> rat \<Rightarrow> rat \<Rightarrow> nat \<Rightarrow> 's \<Rightarrow> retry_event list \<Rightarrow> ('s, 'e, 'a) retry_run"
where
  "retryLoop fn maxRetries initialDelay retries s tr =
     (if of_nat retries < maxRetries then
        (case fn s of
           (Inr v, s') \<Rightarrow> (Returned v, s', tr @ [Invoked])
         | (Inl err, s') \<Rightarrow>
             (if of_nat (retries + 1) = maxRetries then (Raised err, s', tr @ [Invoked])
              else retryLoop fn maxRetries initialDelay (retries + 1) s'
                     (tr @ [Invoked,
                            LoggedRetry (retries + 1) (initialDelay * 2 ^ (retries + 1)),
                            Waited (initialDelay * 2 ^ (retries + 1))])))
      else (ReturnedUndefined, s, tr))"
  by pat_completeness auto
termination
  by (relation "measure (\<lambda>(fn, maxRetries, initialDelay, retries, s, tr). nat \<lceil>maxRetries\<rceil> - retries)")
     (auto simp: diff_less_mono2 less_ceiling_iff zless_nat_eq_int_zless)

declare retryLoop.simps [simp del]

definition retryWithBackoff ::
  "('s, 'e, 'a) operation \<Rightarrow> rat \<Rightarrow> rat \<Rightarrow> 's \<Rightarrow> ('s, 'e, 'a) retry_run"
where
  "retryWithBackoff fn maxRetries initialDelay s = retryLoop fn maxRetries initialDelay 0 s []"

text \<open>The call with both default arguments, as \<^verbatim>\<open>initializeVectorStore\<close> makes it.\<close>

definition defaultMaxRetries :: rat where
  "defaultMaxRetries = 3"

definition defaultInitialDelay :: rat where
  "defaultInitialDelay = 1000"

definition retryWithBackoff_default :: "('s, 'e, 'a) operation \<Rightarrow> 's \<Rightarrow> ('s, 'e, 'a) retry_run"
where
  "retryWithBackoff_default fn s = retryWithBackoff fn defaultMaxRetries defaultInitialDelay s"

text \<open>
  Reading a run: its completion, what it did in order, the number of invocations, the
  delays waited for.
\<close>

definition outcome :: "('s, 'e, 'a) retry_run \<Rightarrow> ('e, 'a) completion" where
  "outcome run = fst run"

definition events :: "('s, 'e, 'a) retry_run \<Rightarrow> retry_event list" where
  "events run = snd (snd run)"

definition invocations :: "('s, 'e, 'a) retry_run \<Rightarrow> nat" where
  "invocations run = length (filter (\<lambda>ev. ev = Invoked) (events run))"

fun delay_of :: "retry_event \<Rightarrow> rat list" where
  "delay_of (Waited d) = [d]"
| "delay_of _ = []"

definition delays :: "('s, 'e, 'a) retry_run \<Rightarrow> rat list" where
  "delays run = concat (map delay_of (events run))"

text \<open>
  The behaviour of the operation over successive invocations: the world before the
  \<open>k\<close>-th invocation (counting from zero) and what that invocation answers.
\<close>

definition world_before :: "('s, 'e, 'a) operation \<Rightarrow> 's \<Rightarrow> nat \<Rightarrow> 's" where
  "world_before fn s k = ((\<lambda>w. snd (fn w)) ^^ k) s"

definition attempt :: "('s, 'e, 'a) operation \<Rightarrow> 's \<Rightarrow> nat \<Rightarrow> 'e + 'a" where
  "attempt fn s k = fst (fn (world_before fn s k))"

text \<open>
  Two concrete operations over a world that counts the invocations made so far: one
  that rejects its first \<open>r\<close> invocations and resolves afterwards, one that rejects
  always.
\<close>

definition flaky :: "nat \<Rightarrow> (nat, string, string) operation" where
  "flaky r calls = (if calls < r then Inl ''write failed'' else Inr ''stored'', calls + 1)"

definition always_fails :: "(nat, string, string) operation" where
  "always_fails calls = (Inl ''write failed'', calls + 1)"

section \<open>Documents and the directory loader\<close>

text \<open>
  A LangChain \<^verbatim>\<open>Document\<close> is a text with a metadata object; every metadata value this
  program stores is a string.
\<close>

record document =
  pageContent :: string
  metadata :: "string \<rightharpoonup> string"

text \<open>
  What the loader takes from the outside: the file system, Node's \<^verbatim>\<open>path\<close> module,
  \<^verbatim>\<open>String.prototype.toLowerCase\<close>, and the three selections it makes on a page parsed
  by cheerio (\<^verbatim>\<open>$('title').text()\<close>, \<^verbatim>\<open>$('meta[name="description"]').attr('content')\<close>,
  which is undefined when the attribute is missing, and \<^verbatim>\<open>$('.content').text()\<close>).
  These are library code; they are parameters of the model, and each may fail where the
  library may throw.
\<close>

record html_page =
  title_text :: string
  description_attr :: "string option"
  content_text :: string

record 'e platform =
  readdir :: "string \<Rightarrow> 'e + string list"
  readFile :: "string \<Rightarrow> 'e + string"
  path_join :: "string \<Rightarrow> string \<Rightarrow> string"
  path_extname :: "string \<Rightarrow> string"
  toLowerCase :: "string \<Rightarrow> string"
  cheerio_load :: "string \<Rightarrow> 'e + html_page"
  load_url :: "string \<Rightarrow> 'e + document list"
  load_github :: "string \<Rightarrow> 'e + document list"

datatype 'e console =
    LogParsing string            \<comment> \<open>\<^verbatim>\<open>console.log(`Parsing ${filePath}`)\<close>\<close>
  | WarnUnsupported string       \<comment> \<open>\<^verbatim>\<open>console.warn(`Unsupported file type: ${file}`)\<close>\<close>
  | ErrorProcessing string 'e    \<comment> \<open>\<^verbatim>\<open>console.error(`Error processing file ${file}:`, error)\<close>\<close>

definition newline :: string where
  "newline = [CHR 0x0A]"

text \<open>
  One iteration of the loop of \<^verbatim>\<open>loadDocumentsFromDirectory\<close> (lines 29 to 68): the
  \<^verbatim>\<open>try\<close> block for one file. It yields the document that is pushed, if any, and the
  console lines written. The \<^verbatim>\<open>catch\<close> clause turns every rejection inside the block
  into a console line; \<^verbatim>\<open>continue\<close> in the default case pushes nothing.
\<close>

definition loadFile :: "'e platform \<Rightarrow> string \<Rightarrow> string \<Rightarrow> document option \<times> 'e console list" where
  "loadFile p directoryPath file =
     (let filePath = path_join p directoryPath file;
          ext = toLowerCase p (path_extname p file)
      in if ext = ''.txt'' \<or> ext = ''.md'' then
           (case readFile p filePath of
              Inl err \<Rightarrow> (None, [ErrorProcessing file err])
            | Inr content \<Rightarrow>
                (Some \<lparr>pageContent = content, metadata = [''source'' \<mapsto> file]\<rparr>, []))
         else if ext = ''.html'' then
           (case readFile p filePath of
              Inl err \<Rightarrow> (None, [LogParsing filePath, ErrorProcessing file err])
            | Inr htmlContent \<Rightarrow>
                (case cheerio_load p htmlContent of
                   Inl err \<Rightarrow> (None, [LogParsing filePath, ErrorProcessing file err])
                 | Inr page \<Rightarrow>
                     (let title = title_text page;
                          description = (case description_attr page of
                                           None \<Rightarrow> []
                                         | Some d \<Rightarrow> if d = [] then [] else d);
                          mainContent = content_text page;
                          content = title @ newline @ newline @ description @ newline @ newline @ mainContent
                      in (Some \<lparr>pageContent = content,
                                metadata = [''source'' \<mapsto> file, ''title'' \<mapsto> title,
                                            ''description'' \<mapsto> description]\<rparr>,
                          [LogParsing filePath]))))
         else (None, [WarnUnsupported file]))"

fun loadLoop ::
  "'e platform \<Rightarrow> string \<Rightarrow> string list \<Rightarrow> document list \<Rightarrow> 'e console list \<Rightarrow>
   document list \<times> 'e console list"
where
  "loadLoop p directoryPath [] documents out = (documents, out)"
| "loadLoop p directoryPath (file # files) documents out =
     (case loadFile p directoryPath file of
        (None, lines) \<Rightarrow> loadLoop p directoryPath files documents (out @ lines)
      | (Some doc, lines) \<Rightarrow> loadLoop p directoryPath files (documents @ [doc]) (out @ lines))"

definition loadDocumentsFromDirectory ::
  "'e platform \<Rightarrow> string \<Rightarrow> ('e + document list) \<times> 'e console list"
where
  "loadDocumentsFromDirectory p directoryPath =
     (case readdir p directoryPath of
        Inl err \<Rightarrow> (Inl err, [])
      | Inr files \<Rightarrow>
          (case loadLoop p directoryPath files [] [] of (documents, out) \<Rightarrow> (Inr documents, out)))"

definition loadDocumentsFromUrl :: "'e platform \<Rightarrow> string \<Rightarrow> ('e + document list) \<times> 'e console list" where
  "loadDocumentsFromUrl p url = (load_url p url, [])"

definition loadDocumentsFromGithub :: "'e platform \<Rightarrow> string \<Rightarrow> ('e + document list) \<times> 'e console list" where
  "loadDocumentsFromGithub p repoUrl = (load_github p repoUrl, [])"

text \<open>
  The words of the specification about one file of a listing: its extension is
  recognized; it is recognized and both reading and (for markup) parsing succeed.
\<close>

definition recognized :: "'e platform \<Rightarrow> string \<Rightarrow> bool" where
  "recognized p file \<longleftrightarrow> toLowerCase p (path_extname p file) \<in> {''.txt'', ''.md'', ''.html''}"

definition loads :: "'e platform \<Rightarrow> string \<Rightarrow> string \<Rightarrow> bool" where
  "loads p directoryPath file \<longleftrightarrow>
     recognized p file \<and>
     (case readFile p (path_join p directoryPath file) of
        Inl err \<Rightarrow> False
      | Inr text \<Rightarrow> toLowerCase p (path_extname p file) = ''.html'' \<longrightarrow> \<not> isl (cheerio_load p text))"

text \<open>
  Modelled from the spec: the text splitter (\<^verbatim>\<open>RecursiveCharacterTextSplitter\<close> with
  chunk size 1000 and overlap 200) is a library class and its code is not part of the
  program. According to the data model, a chunk is a document whose content is a bounded
  window of its source document's content and which carries the same metadata; chunk
  order follows document order, then position. The windows are a parameter.
\<close>

definition splitDocuments :: "(string \<Rightarrow> string list) \<Rightarrow> document list \<Rightarrow> document list" where
  "splitDocuments splitText docs =
     concat (map (\<lambda>doc. map (\<lambda>window. \<lparr>pageContent = window, metadata = metadata doc\<rparr>)
                          (splitText (pageContent doc))) docs)"

text \<open>
  A small concrete platform: plain file names, whose extension is what follows the last
  dot of the last path segment (none when the segment starts with its only dot), and
  lowering of the letters A to Z. The directory \<^verbatim>\<open>docs\<close> holds \<^verbatim>\<open>a.md\<close>
  (``Hello world''), \<^verbatim>\<open>b.unknown\<close>, the empty file \<^verbatim>\<open>empty.md\<close> and \<^verbatim>\<open>broken.TXT\<close>,
  which cannot be read.
\<close>

definition lower_char :: "char \<Rightarrow> char" where
  "lower_char c =
     (case map_of (zip ''ABCDEFGHIJKLMNOPQRSTUVWXYZ'' ''abcdefghijklmnopqrstuvwxyz'') c of
        Some l \<Rightarrow> l
      | None \<Rightarrow> c)"

definition plain_extname :: "string \<Rightarrow> string" where
  "plain_extname path =
     (let base = rev (takeWhile (\<lambda>c. c \<noteq> CHR ''/'') (rev path));
          suffix = rev (takeWhile (\<lambda>c. c \<noteq> CHR ''.'') (rev base))
      in if length suffix + 1 < length base then CHR ''.'' # suffix else [])"

definition docs_readFile :: "string \<Rightarrow> string + string" where
  "docs_readFile filePath =
     (if filePath = ''docs/a.md'' then Inr ''Hello world''
      else if filePath = ''docs/b.unknown'' then Inr ''binary''
      else if filePath = ''docs/empty.md'' then Inr []
      else if filePath = ''docs/broken.TXT'' then Inl ''EACCES''
      else Inl ''ENOENT'')"

definition docs_readdir :: "string \<Rightarrow> string + string list" where
  "docs_readdir directoryPath =
     (if directoryPath = ''docs'' then Inr [''a.md'', ''b.unknown'', ''empty.md'', ''broken.TXT'']
      else Inl ''ENOENT'')"

definition docs_path_join :: "string \<Rightarrow> string \<Rightarrow> string" where
  "docs_path_join directoryPath file = directoryPath @ ''/'' @ file"

definition docs_cheerio :: "string \<Rightarrow> string + html_page" where
  "docs_cheerio htmlContent = Inr \<lparr>title_text = [], description_attr = None, content_text = htmlContent\<rparr>"

definition docs_unreachable :: "string \<Rightarrow> string + document list" where
  "docs_unreachable location = Inl ''ENETUNREACH''"

definition docs_platform :: "string platform" where
  "docs_platform =
     \<lparr>readdir = docs_readdir, readFile = docs_readFile, path_join = docs_path_join,
      path_extname = plain_extname, toLowerCase = map lower_char, cheerio_load = docs_cheerio,
      load_url = docs_unreachable, load_github = docs_unreachable\<rparr>"

section \<open>Writing the chunks to the vector store\<close>

text \<open>
  \<^verbatim>\<open>initializeVectorStore\<close> (lines 90 to 117):
  \<^verbatim>\<open>
  const batchSize = 50;
  const limit = pLimit(5);
  for (let i = 0; i < docs.length; i += batchSize) {
      const batch = docs.slice(i, i + batchSize);
      await Promise.all(
          batch.map(doc => limit(() => retryWithBackoff(() =>
              QdrantVectorStore.fromDocuments([doc], embeddings, {client, collectionName})))));
      console.log(`Processed ${i + batch.length} out of ${docs.length} documents`);
  }
  \<close>
  The writes of one batch are in flight together, so the function is modelled as a
  transition system over the JavaScript event loop. Between two events from outside
  (the completion of a write request, the firing of a timer) the program runs without
  interruption; one transition is one such event together with everything the program
  does in reaction to it, promise reactions included. Which pending event comes next is
  not decided by the program: a run is driven by a schedule, the list of the documents
  whose pending event is delivered, in order.

  The client and the embeddings object made and logged before the loop (lines 91 to
  99) are only passed on to the write; making them does no input or output.

  Every document of the input has one task: the promise returned by \<^verbatim>\<open>limit\<close> for it.
  A task is not created before its batch is reached; then it waits in the queue of the
  limiter, or runs \<^verbatim>\<open>retryWithBackoff\<close> with the default arguments and is suspended at one
  of its two \<^verbatim>\<open>await\<close>s (on the write request, with the current value of \<^verbatim>\<open>retries\<close>, or
  on the timer), or is settled.
\<close>

definition batchSize :: nat where
  "batchSize = 50"

definition concurrency :: nat where
  "concurrency = 5"

datatype 'e task =
    NotCreated
  | Queued
  | InFlight nat
  | Sleeping nat
  | Fulfilled
  | Rejected 'e

text \<open>
  The function itself is suspended at \<^verbatim>\<open>await Promise.all(\<dots>)\<close> in the iteration with loop
  variable \<open>i\<close>, or has returned, or has thrown.
\<close>

datatype 'e control =
    Awaiting nat
  | Completed
  | Failed 'e

datatype ('d, 'e) store_event =
    BatchSliced nat "'d list"   \<comment> \<open>\<^verbatim>\<open>const batch = docs.slice(i, i + batchSize)\<close>, at loop variable \<open>i\<close>\<close>
  | WriteIssued nat             \<comment> \<open>\<^verbatim>\<open>QdrantVectorStore.fromDocuments([doc], \<dots>)\<close> called for document \<open>j\<close>\<close>
  | WriteSucceeded nat
  | WriteFailed nat 'e
  | RetryLogged nat nat rat     \<comment> \<open>\<^verbatim>\<open>console.log(`Retry ${retries} after ${delay}ms`)\<close> in task \<open>j\<close>\<close>
  | TimerStarted nat rat
  | TimerFired nat
  | TaskFulfilled nat           \<comment> \<open>the promise of task \<open>j\<close> is fulfilled\<close>
  | TaskRejected nat 'e         \<comment> \<open>the promise of task \<open>j\<close> is rejected\<close>
  | Progress nat nat            \<comment> \<open>\<^verbatim>\<open>console.log(`Processed ${i + batch.length} out of ${docs.length} documents`)\<close>\<close>

record ('d, 's, 'e) store_state =
  world :: 's
  tasks :: "'e task list"
  activeCount :: nat
  queue :: "nat list"
  control :: "'e control"
  trace :: "('d, 'e) store_event list"

text \<open>\<^verbatim>\<open>Array.prototype.slice\<close> for \<open>0 \<le> a \<le> b\<close>.\<close>

definition slice :: "'a list \<Rightarrow> nat \<Rightarrow> nat \<Rightarrow> 'a list" where
  "slice xs a b = take (b - a) (drop a xs)"

text \<open>
  The limiter of p-limit. Starting a job increments \<^verbatim>\<open>activeCount\<close> and calls the job:
  \<^verbatim>\<open>retryWithBackoff\<close> sets \<^verbatim>\<open>retries = 0\<close>, passes the loop test (\<open>0 < 3\<close>), calls
  \<^verbatim>\<open>fn()\<close>, which issues the write, and is suspended. \<^verbatim>\<open>limit(job)\<close> starts the job when
  fewer than \<^verbatim>\<open>concurrency\<close> jobs are active and appends it to the queue otherwise. When
  a job has settled, \<^verbatim>\<open>next\<close> decrements \<^verbatim>\<open>activeCount\<close> and starts the job at the head of
  the queue. (Recent versions of p-limit defer the first start by one promise reaction;
  the same jobs are started in the same order before any outside event is delivered.)
\<close>

definition run_job :: "nat \<Rightarrow> ('d, 's, 'e) store_state \<Rightarrow> ('d, 's, 'e) store_state" where
  "run_job j st =
     st\<lparr>tasks := (tasks st)[j := InFlight 0],
        activeCount := activeCount st + 1,
        trace := trace st @ [WriteIssued j]\<rparr>"

definition limit :: "nat \<Rightarrow> ('d, 's, 'e) store_state \<Rightarrow> ('d, 's, 'e) store_state" where
  "limit j st =
     (if activeCount st < concurrency then run_job j st
      else st\<lparr>tasks := (tasks st)[j := Queued], queue := queue st @ [j]\<rparr>)"

definition next_job :: "('d, 's, 'e) store_state \<Rightarrow> ('d, 's, 'e) store_state" where
  "next_job st =
     (case queue st of
        [] \<Rightarrow> st\<lparr>activeCount := activeCount st - 1\<rparr>
      | j # js \<Rightarrow> run_job j (st\<lparr>activeCount := activeCount st - 1, queue := js\<rparr>))"

text \<open>
  The \<^verbatim>\<open>for\<close> statement from its test, with loop variable \<open>i\<close>, up to the \<^verbatim>\<open>await\<close>: either
  the loop is over and the function returns, or the batch is sliced and one task per
  document of the batch is handed to the limiter, in order. Document \<open>j\<close> of the input
  is position \<open>j - i\<close> of the batch.
\<close>

definition iteration :: "'d list \<Rightarrow> nat \<Rightarrow> ('d, 's, 'e) store_state \<Rightarrow> ('d, 's, 'e) store_state" where
  "iteration docs i st =
     (if i < length docs then
        (let batch = slice docs i (i + batchSize)
         in fold limit [i..<i + length batch]
              (st\<lparr>control := Awaiting i, trace := trace st @ [BatchSliced i batch]\<rparr>))
      else st\<lparr>control := Completed\<rparr>)"

text \<open>
  \<^verbatim>\<open>Promise.all\<close> is fulfilled once every task of the batch is fulfilled; it is rejected
  as soon as one task is rejected, with that task's error, and nothing that settles
  later changes it.
\<close>

definition batch_fulfilled :: "'d list \<Rightarrow> nat \<Rightarrow> ('d, 's, 'e) store_state \<Rightarrow> bool" where
  "batch_fulfilled docs i st \<longleftrightarrow>
     list_all (\<lambda>j. tasks st ! j = Fulfilled) [i..<i + length (slice docs i (i + batchSize))]"

text \<open>
  Task \<open>j\<close> settles. The limiter moves on first. If the function still awaits the batch:
  a rejection makes \<^verbatim>\<open>await\<close> throw, which ends the function, since nothing catches it;
  the last fulfilment of the batch resumes the loop, which reports progress, adds
  \<^verbatim>\<open>batchSize\<close> to \<open>i\<close> and goes back to the test.
\<close>

definition fulfil :: "'d list \<Rightarrow> nat \<Rightarrow> ('d, 's, 'e) store_state \<Rightarrow> ('d, 's, 'e) store_state" where
  "fulfil docs j st =
     (let st' = next_job (st\<lparr>tasks := (tasks st)[j := Fulfilled], trace := trace st @ [TaskFulfilled j]\<rparr>)
      in case control st' of
           Awaiting i \<Rightarrow>
             if batch_fulfilled docs i st' then
               iteration docs (i + batchSize)
                 (st'\<lparr>trace := trace st' @
                    [Progress (i + length (slice docs i (i + batchSize))) (length docs)]\<rparr>)
             else st'
         | _ \<Rightarrow> st')"

definition reject :: "nat \<Rightarrow> 'e \<Rightarrow> ('d, 's, 'e) store_state \<Rightarrow> ('d, 's, 'e) store_state" where
  "reject j err st =
     (let st' = next_job (st\<lparr>tasks := (tasks st)[j := Rejected err], trace := trace st @ [TaskRejected j err]\<rparr>)
      in case control st' of
           Awaiting i \<Rightarrow> st'\<lparr>control := Failed err\<rparr>
         | _ \<Rightarrow> st')"

text \<open>
  The pending event of task \<open>j\<close> is delivered: its write request completes with the
  outcome the store gives in the current world, or its timer fires. This resumes
  \<^verbatim>\<open>retryWithBackoff\<close> in that task, after the \<^verbatim>\<open>await\<close> of line 124 or of line 130, and
  runs it to its next \<^verbatim>\<open>await\<close> or to its end. A task that is not suspended has no
  pending event.
\<close>

definition advance ::
  "('d \<Rightarrow> ('s, 'e, 'a) operation) \<Rightarrow> 'd list \<Rightarrow> nat \<Rightarrow> ('d, 's, 'e) store_state \<Rightarrow>
   ('d, 's, 'e) store_state option"
where
  "advance write docs j st =
     (if j < length (tasks st) \<and> j < length docs then
        (case tasks st ! j of
           InFlight retries \<Rightarrow>
             (case write (docs ! j) (world st) of
                (Inr v, w) \<Rightarrow>
                  Some (fulfil docs j (st\<lparr>world := w, trace := trace st @ [WriteSucceeded j]\<rparr>))
              | (Inl err, w) \<Rightarrow>
                  if of_nat (retries + 1) = defaultMaxRetries then
                    Some (reject j err (st\<lparr>world := w, trace := trace st @ [WriteFailed j err]\<rparr>))
                  else
                    Some (st\<lparr>world := w,
                             tasks := (tasks st)[j := Sleeping (retries + 1)],
                             trace := trace st @
                               [WriteFailed j err,
                                RetryLogged j (retries + 1) (defaultInitialDelay * 2 ^ (retries + 1)),
                                TimerStarted j (defaultInitialDelay * 2 ^ (retries + 1))]\<rparr>))
         | Sleeping retries \<Rightarrow>
             if of_nat retries < defaultMaxRetries then
               Some (st\<lparr>tasks := (tasks st)[j := InFlight retries],
                        trace := trace st @ [TimerFired j, WriteIssued j]\<rparr>)
             else Some (fulfil docs j (st\<lparr>trace := trace st @ [TimerFired j]\<rparr>))
         | _ \<Rightarrow> None)
      else None)"

fun run ::
  "('d \<Rightarrow> ('s, 'e, 'a) operation) \<Rightarrow> 'd list \<Rightarrow> nat list \<Rightarrow> ('d, 's, 'e) store_state \<Rightarrow>
   ('d, 's, 'e) store_state option"
where
  "run write docs [] st = Some st"
| "run write docs (j # schedule) st =
     (case advance write docs j st of
        None \<Rightarrow> None
      | Some st' \<Rightarrow> run write docs schedule st')"

text \<open>The call: nothing exists yet, and the loop starts with \<open>i = 0\<close>.\<close>

definition initializeVectorStore :: "'d list \<Rightarrow> 's \<Rightarrow> ('d, 's, 'e) store_state" where
  "initializeVectorStore docs w =
     iteration docs 0
       \<lparr>world = w, tasks = replicate (length docs) NotCreated, activeCount = 0, queue = [],
        control = Awaiting 0, trace = []\<rparr>"

text \<open>
  A state is quiescent when no task has a pending event: nothing more will happen.
\<close>

definition suspended :: "'e task \<Rightarrow> bool" where
  "suspended t = (case t of InFlight retries \<Rightarrow> True | Sleeping retries \<Rightarrow> True | _ \<Rightarrow> False)"

definition quiescent :: "('d, 's, 'e) store_state \<Rightarrow> bool" where
  "quiescent st \<longleftrightarrow> \<not> list_ex suspended (tasks st)"

text \<open>Reading a trace: the batches sliced, the progress lines, the rejections, in order.\<close>

fun batch_of :: "('d, 'e) store_event \<Rightarrow> 'd list list" where
  "batch_of (BatchSliced i batch) = [batch]"
| "batch_of _ = []"

fun progress_of :: "('d, 'e) store_event \<Rightarrow> (nat \<times> nat) list" where
  "progress_of (Progress processed len) = [(processed, len)]"
| "progress_of _ = []"

fun rejection_of :: "('d, 'e) store_event \<Rightarrow> 'e list" where
  "rejection_of (TaskRejected j err) = [err]"
| "rejection_of _ = []"

definition batches :: "('d, 'e) store_event list \<Rightarrow> 'd list list" where
  "batches tr = concat (map batch_of tr)"

definition progress :: "('d, 'e) store_event list \<Rightarrow> (nat \<times> nat) list" where
  "progress tr = concat (map progress_of tr)"

definition rejections :: "('d, 'e) store_event list \<Rightarrow> 'e list" where
  "rejections tr = concat (map rejection_of tr)"

text \<open>
  What a trace says about the store: the write requests that completed, in order, each
  with the number of the document written and, if the request failed, its error.
  Replaying them from the world in which the function was called gives the world they
  lead to, provided that the store answers every one of them, in its turn, as the trace
  says; otherwise there is no such world.
\<close>

fun answer_of :: "('d, 'e) store_event \<Rightarrow> (nat \<times> 'e option) list" where
  "answer_of (WriteSucceeded j) = [(j, None)]"
| "answer_of (WriteFailed j err) = [(j, Some err)]"
| "answer_of _ = []"

definition answers :: "('d, 'e) store_event list \<Rightarrow> (nat \<times> 'e option) list" where
  "answers tr = concat (map answer_of tr)"

fun replay ::
  "('d \<Rightarrow> ('s, 'e, 'a) operation) \<Rightarrow> 'd list \<Rightarrow> (nat \<times> 'e option) list \<Rightarrow> 's \<Rightarrow> 's option"
where
  "replay write docs [] w = Some w"
| "replay write docs ((j, answer) # rest) w =
     (if j < length docs then
        (case write (docs ! j) w of
           (Inr v, w') \<Rightarrow> if answer = None then replay write docs rest w' else None
         | (Inl err, w') \<Rightarrow> if answer = Some err then replay write docs rest w' else None)
      else None)"

section \<open>The ingestion pipeline\<close>

text \<open>
  \<^verbatim>\<open>initializeChatbot\<close> (lines 149 to 174). A value thrown is either an \<^verbatim>\<open>Error\<close> made by
  this program, with its message, or whatever a library call rejected with. The
  parameter \<^verbatim>\<open>sourceType\<close> is a string at run time; the type annotation does not exist
  there. What the function does is recorded in order: the load it starts, the console
  lines, the split, the events of the vector store. Its promise is settled with a
  value, or is still pending when the schedule ends while writes are outstanding. A
  schedule that delivers an event which is not pending describes no run.
\<close>

datatype 'e failure =
    JsError string
  | LibraryError 'e

datatype 'e pipeline_event =
    LoadStarted string string       \<comment> \<open>the loader for this source type was called on this source\<close>
  | LoaderConsole "'e console"
  | LoggedRawDocs nat               \<comment> \<open>\<^verbatim>\<open>console.log({rawDocs: rawDocs.length})\<close>\<close>
  | SplitInto nat                   \<comment> \<open>\<^verbatim>\<open>textSplitter.splitDocuments(rawDocs)\<close> gave this many chunks\<close>
  | Store "(document, 'e) store_event"
  | LoggedInitialized               \<comment> \<open>\<^verbatim>\<open>console.log("Vector store initialized with documents.")\<close>\<close>

record ('s, 'e) pipeline_run =
  settled :: "('e failure + unit) option"
  effects :: "'e pipeline_event list"
  final_world :: 's

definition initializeChatbot ::
  "'e platform \<Rightarrow> (string \<Rightarrow> string list) \<Rightarrow> (document \<Rightarrow> ('s, 'e, 'a) operation) \<Rightarrow>
   string \<Rightarrow> string \<Rightarrow> nat list \<Rightarrow> 's \<Rightarrow> ('s, 'e) pipeline_run option"
where
  "initializeChatbot p splitText write source sourceType schedule w =
     (case (if sourceType = ''directory'' then Some (loadDocumentsFromDirectory p source)
            else if sourceType = ''url'' then Some (loadDocumentsFromUrl p source)
            else if sourceType = ''github'' then Some (loadDocumentsFromGithub p source)
            else None) of
        None \<Rightarrow>
          Some \<lparr>settled = Some (Inl (JsError ''Invalid source type'')), effects = [], final_world = w\<rparr>
      | Some (Inl err, out) \<Rightarrow>
          Some \<lparr>settled = Some (Inl (LibraryError err)),
                effects = LoadStarted sourceType source # map LoaderConsole out,
                final_world = w\<rparr>
      | Some (Inr rawDocs, out) \<Rightarrow>
          (let docs = splitDocuments splitText rawDocs;
               before = LoadStarted sourceType source # map LoaderConsole out @
                        [LoggedRawDocs (length rawDocs), SplitInto (length docs)]
           in case run write docs schedule (initializeVectorStore docs w) of
                None \<Rightarrow> None
              | Some st \<Rightarrow>
                  Some (case control st of
                          Awaiting i \<Rightarrow>
                            \<lparr>settled = None, effects = before @ map Store (trace st),
                             final_world = world st\<rparr>
                        | Failed err \<Rightarrow>
                            \<lparr>settled = Some (Inl (LibraryError err)),
                             effects = before @ map Store (trace st), final_world = world st\<rparr>
                        | Completed \<Rightarrow>
                            \<lparr>settled = Some (Inr ()),
                             effects = before @ map Store (trace st) @ [LoggedInitialized],
                             final_world = world st\<rparr>)))"

section \<open>Answering a question\<close>

text \<open>
  \<^verbatim>\<open>createChatbot\<close> builds a chain of three steps (lines 184 to 202): a map that computes
  \<^verbatim>\<open>context\<close> (the retrieved documents' contents joined by a newline) and passes the
  question on, the prompt template, and the chat model. \<^verbatim>\<open>askQuestion\<close> invokes the chain
  and returns its response. The retriever and the model are services outside the
  program; they act on the world and may reject.
\<close>

record ('s, 'e, 'r) services =
  getRelevantDocuments :: "string \<Rightarrow> ('s, 'e, document list) operation"
  invoke_model :: "string \<Rightarrow> ('s, 'e, 'r) operation"

datatype qa_event =
    Retrieved string      \<comment> \<open>\<^verbatim>\<open>retriever.getRelevantDocuments(input.question)\<close>\<close>
  | Prompted string       \<comment> \<open>the chat model was invoked with this prompt\<close>

text \<open>\<^verbatim>\<open>Array.prototype.join\<close> on strings.\<close>

fun join :: "string \<Rightarrow> string list \<Rightarrow> string" where
  "join sep [] = []"
| "join sep [x] = x"
| "join sep (x # y # ys) = x @ sep @ join sep (y # ys)"

text \<open>
  The template string of lines 186 to 189: four lines, the last three indented by eight
  spaces.
\<close>

definition template :: string where
  "template =
     ''Answer the following question based on the context:'' @ newline @
     ''        Context: {context}'' @ newline @
     ''        Question: {question}'' @ newline @
     ''        Answer:''"

text \<open>
  \<^verbatim>\<open>PromptTemplate\<close> is a library class. Its rendering of an f-string template is modelled
  as follows: text outside braces is copied, \<^verbatim>\<open>{name}\<close> is replaced by the value given for
  \<^verbatim>\<open>name\<close>, doubled braces stand for one brace, and rendering fails on a missing value,
  an unclosed \<^verbatim>\<open>{\<close> or a single \<^verbatim>\<open>}\<close>. Values are inserted as they are. The second
  argument is the part of a placeholder's name read so far, if the scan is inside one.
\<close>

fun interpolate :: "(string \<rightharpoonup> string) \<Rightarrow> string option \<Rightarrow> string \<Rightarrow> string option" where
  "interpolate values None [] = Some []"
| "interpolate values None (c # cs) =
     (if c = CHR ''{'' then
        (case cs of
           [] \<Rightarrow> None
         | c' # cs' \<Rightarrow>
             if c' = CHR ''{'' then map_option ((#) CHR ''{'') (interpolate values None cs')
             else interpolate values (Some []) cs)
      else if c = CHR ''}'' then
        (case cs of
           [] \<Rightarrow> None
         | c' # cs' \<Rightarrow>
             if c' = CHR ''}'' then map_option ((#) CHR ''}'') (interpolate values None cs')
             else None)
      else map_option ((#) c) (interpolate values None cs))"
| "interpolate values (Some name) [] = None"
| "interpolate values (Some name) (c # cs) =
     (if c = CHR ''}'' then
        (case values name of
           None \<Rightarrow> None
         | Some v \<Rightarrow> map_option ((@) v) (interpolate values None cs))
      else interpolate values (Some (name @ [c])) cs)"

definition createChatbot ::
  "('s, 'e, 'r) services \<Rightarrow> string \<Rightarrow> 's \<Rightarrow> ('e failure + 'r) \<times> 's \<times> qa_event list"
where
  "createChatbot srv question w =
     (case getRelevantDocuments srv question w of
        (Inl err, w1) \<Rightarrow> (Inl (LibraryError err), w1, [Retrieved question])
      | (Inr docs, w1) \<Rightarrow>
          (let context = join newline (map pageContent docs)
           in case interpolate [''context'' \<mapsto> context, ''question'' \<mapsto> question] None template of
                None \<Rightarrow> (Inl (JsError ''Invalid prompt''), w1, [Retrieved question])
              | Some prompt \<Rightarrow>
                  (case invoke_model srv prompt w1 of
                     (Inl err, w2) \<Rightarrow>
                       (Inl (LibraryError err), w2, [Retrieved question, Prompted prompt])
                   | (Inr response, w2) \<Rightarrow>
                       (Inr response, w2, [Retrieved question, Prompted prompt]))))"

definition askQuestion ::
  "(string \<Rightarrow> 's \<Rightarrow> ('e failure + 'r) \<times> 's \<times> qa_event list) \<Rightarrow> string \<Rightarrow> 's \<Rightarrow>
   ('e failure + 'r) \<times> 's \<times> qa_event list"
where
  "askQuestion chain question w = chain question w"

section \<open>Inputs used as examples\<close>

text \<open>
  A splitter that keeps a short text whole and makes no chunk of an empty one; a write
  that always succeeds and one that fails for one document; a retriever that finds three
  chunks and a model with a fixed answer, and the prompt expected for a context and a
  question. The world counts the calls made.
\<close>

definition whole_text :: "string \<Rightarrow> string list" where
  "whole_text text = (if text = [] then [] else [text])"

definition stored :: "'d \<Rightarrow> (nat, string, string) operation" where
  "stored doc calls = (Inr ''stored'', calls + 1)"

definition widget_retriever :: "string \<Rightarrow> (nat, string, document list) operation" where
  "widget_retriever question calls =
     (Inr [\<lparr>pageContent = ''X is a widget.'', metadata = [''source'' \<mapsto> ''x.md'']\<rparr>,
           \<lparr>pageContent = ''A widget has a handle.'', metadata = [''source'' \<mapsto> ''y.md'']\<rparr>,
           \<lparr>pageContent = ''Widgets are small.'', metadata = [''source'' \<mapsto> ''x.md'']\<rparr>],
      calls + 1)"

definition widget_model :: "string \<Rightarrow> (nat, string, string) operation" where
  "widget_model prompt calls = (Inr ''X is a widget, according to the context.'', calls + 1)"

definition widget_services :: "(nat, string, string) services" where
  "widget_services = \<lparr>getRelevantDocuments = widget_retriever, invoke_model = widget_model\<rparr>"

definition rendered :: "string \<Rightarrow> string \<Rightarrow> string" where
  "rendered context question =
     ''Answer the following question based on the context:'' @ newline @
     ''        Context: '' @ context @ newline @
     ''        Question: '' @ question @ newline @
     ''        Answer:''"

definition rejecting :: "nat \<Rightarrow> nat \<Rightarrow> (nat, string, string) operation" where
  "rejecting bad doc calls = (if doc = bad then Inl ''write failed'' else Inr ''stored'', calls + 1)"

section \<open>Auxiliary notions\<close>

text \<open>
  The events of \<open>r\<close> failed invocations that are each followed by a retry, when
  \<open>n\<close> failures came before them.
\<close>

definition backoff :: "rat \<Rightarrow> nat \<Rightarrow> nat \<Rightarrow> retry_event list" where
  "backoff D n r =
     concat (map (\<lambda>i. [Invoked, LoggedRetry i (D * 2 ^ i), Waited (D * 2 ^ i)]) [Suc n..<Suc (n + r)])"

text \<open>
  For the vector store. The end of the batch that starts at \<open>i\<close>, and the tasks that
  have a pending event. A state in the batch that starts at \<open>a\<close>, with tasks created up
  to \<open>c\<close>, is well-shaped when every task before the batch is fulfilled, no task from
  \<open>c\<close> on exists, the queue holds the last tasks created, in order, and the limiter's
  counter is the number of tasks with a pending event, at most \<^verbatim>\<open>concurrency\<close>, and
  exactly that when a task is queued.
\<close>

definition upper :: "'d list \<Rightarrow> nat \<Rightarrow> nat" where
  "upper docs i = i + length (slice docs i (i + batchSize))"

definition active :: "('d, 's, 'e) store_state \<Rightarrow> nat set" where
  "active st = {j. j < length (tasks st) \<and> suspended (tasks st ! j)}"

definition shape :: "'d list \<Rightarrow> nat \<Rightarrow> nat \<Rightarrow> ('d, 's, 'e) store_state \<Rightarrow> bool" where
  "shape docs a c st \<longleftrightarrow>
     length (tasks st) = length docs \<and> a \<le> c \<and> c \<le> length docs \<and>
     (\<forall>j<a. tasks st ! j = Fulfilled) \<and>
     (\<forall>j. c \<le> j \<and> j < length docs \<longrightarrow> tasks st ! j = NotCreated) \<and>
     (\<exists>q. a \<le> q \<and> q \<le> c \<and> queue st = [q..<c] \<and>
          (\<forall>j. a \<le> j \<and> j < q \<longrightarrow> tasks st ! j \<noteq> NotCreated \<and> tasks st ! j \<noteq> Queued) \<and>
          (\<forall>j. q \<le> j \<and> j < c \<longrightarrow> tasks st ! j = Queued) \<and>
          (q < c \<longrightarrow> activeCount st = concurrency)) \<and>
     activeCount st \<le> concurrency \<and>
     activeCount st = card (active st)"

text \<open>
  The events that mark the progress of the loop, and what the loop has marked after
  \<open>m\<close> whole batches. A trace is sequenced when every write in it was issued after the
  fulfilment of the tasks of all documents of earlier batches. The invariant of the
  transition system says in which batch the run is, or that the function has returned.
\<close>

definition milestone :: "('d, 'e) store_event \<Rightarrow> bool" where
  "milestone ev = (case ev of BatchSliced i batch \<Rightarrow> True | Progress k len \<Rightarrow> True | _ \<Rightarrow> False)"

definition report :: "'d list \<Rightarrow> nat \<Rightarrow> ('d, 'e) store_event list" where
  "report docs k =
     [BatchSliced (k * batchSize) (slice docs (k * batchSize) (k * batchSize + batchSize)),
      Progress (upper docs (k * batchSize)) (length docs)]"

definition reported :: "'d list \<Rightarrow> nat \<Rightarrow> ('d, 'e) store_event list" where
  "reported docs m = concat (map (report docs) [0..<m])"

definition sequenced :: "('d, 'e) store_event list \<Rightarrow> bool" where
  "sequenced tr \<longleftrightarrow>
     (\<forall>p j j'. p < length tr \<and> tr ! p = WriteIssued j \<and> j' div batchSize < j div batchSize \<longrightarrow>
        (\<exists>p'<p. tr ! p' = TaskFulfilled j'))"

definition history :: "'d list \<Rightarrow> nat \<Rightarrow> nat \<Rightarrow> ('d, 's, 'e) store_state \<Rightarrow> bool" where
  "history docs m c st \<longleftrightarrow>
     sequenced (trace st) \<and>
     (\<forall>j<length docs. tasks st ! j = Fulfilled \<longrightarrow> TaskFulfilled j \<in> set (trace st)) \<and>
     (\<forall>j. WriteIssued j \<in> set (trace st) \<longrightarrow> j < c) \<and>
     (\<forall>j e. TaskRejected j e \<in> set (trace st) \<longrightarrow> m * batchSize \<le> j \<and> j < c) \<and>
     filter milestone (trace st) =
       reported docs m @
       [BatchSliced (m * batchSize) (slice docs (m * batchSize) (m * batchSize + batchSize))]"

definition batch_inv :: "'d list \<Rightarrow> nat \<Rightarrow> nat \<Rightarrow> ('d, 's, 'e) store_state \<Rightarrow> bool" where
  "batch_inv docs m c st \<longleftrightarrow>
     c \<le> m * batchSize + batchSize \<and> shape docs (m * batchSize) c st \<and> history docs m c st"

definition invariant :: "'d list \<Rightarrow> ('d, 's, 'e) store_state \<Rightarrow> bool" where
  "invariant docs st \<longleftrightarrow>
     (case control st of
        Awaiting i \<Rightarrow>
          (\<exists>m. i = m * batchSize \<and> i < length docs \<and> batch_inv docs m (upper docs i) st \<and>
               rejections (trace st) = [] \<and>
               (\<forall>j<length docs. \<forall>e. tasks st ! j \<noteq> Rejected e) \<and>
               (\<exists>j. i \<le> j \<and> j < upper docs i \<and> tasks st ! j \<noteq> Fulfilled))
      | Failed err \<Rightarrow>
          (\<exists>m. m * batchSize < length docs \<and> batch_inv docs m (upper docs (m * batchSize)) st \<and>
               rejections (trace st) \<noteq> [] \<and> err = hd (rejections (trace st)))
      | Completed \<Rightarrow>
          length (tasks st) = length docs \<and>
          (\<forall>j<length docs. tasks st ! j = Fulfilled) \<and>
          sequenced (trace st) \<and> rejections (trace st) = [] \<and>
          (\<forall>j. WriteIssued j \<in> set (trace st) \<longrightarrow> j < length docs) \<and>
          (\<exists>m. length docs \<le> m * batchSize \<and> (\<forall>k<m. k * batchSize < length docs) \<and>
               filter milestone (trace st) = reported docs m))"

text \<open>
  A bound on the events a task can still receive: three write completions and two
  timers at most, since \<^verbatim>\<open>retries\<close> never exceeds 2 while a task is suspended.
\<close>

fun budget :: "'e task \<Rightarrow> nat" where
  "budget NotCreated = 5"
| "budget Queued = 5"
| "budget (InFlight retries) = 5 - 2 * retries"
| "budget (Sleeping retries) = 6 - 2 * retries"
| "budget Fulfilled = 0"
| "budget (Rejected err) = 0"

definition remaining :: "('d, 's, 'e) store_state \<Rightarrow> nat" where
  "remaining st = sum_list (map budget (tasks st))"

fun retries_ok :: "'e task \<Rightarrow> bool" where
  "retries_ok (InFlight retries) \<longleftrightarrow> retries \<le> 2"
| "retries_ok (Sleeping retries) \<longleftrightarrow> 1 \<le> retries \<and> retries \<le> 2"
| "retries_ok t \<longleftrightarrow> True"

definition bounded_retries :: "('d, 's, 'e) store_state \<Rightarrow> bool" where
  "bounded_retries st \<longleftrightarrow> list_all retries_ok (tasks st)"

text \<open>
  The steps the program takes by itself, between two events from outside, complete no
  write: a state follows another when the world and the recorded answers of the store
  are the same, the trace has only grown, and a task has changed only by being queued
  or by being started, with its write issued. In every state the tasks are accounted
  for in the trace: a fulfilled task has a write that succeeded, and a write that is in
  flight or has succeeded was issued.
\<close>

definition follows :: "('d, 's, 'e) store_state \<Rightarrow> ('d, 's, 'e) store_state \<Rightarrow> bool" where
  "follows st st' \<longleftrightarrow>
     length (tasks st') = length (tasks st) \<and> world st' = world st \<and>
     answers (trace st') = answers (trace st) \<and> set (trace st) \<subseteq> set (trace st') \<and>
     (\<forall>k<length (tasks st).
        tasks st' ! k = tasks st ! k \<or> tasks st' ! k = Queued \<or>
        (tasks st' ! k = InFlight 0 \<and> WriteIssued k \<in> set (trace st')))"

definition accounted :: "('d, 's, 'e) store_state \<Rightarrow> bool" where
  "accounted st \<longleftrightarrow>
     (\<forall>k<length (tasks st). tasks st ! k = Fulfilled \<longrightarrow> WriteSucceeded k \<in> set (trace st)) \<and>
     (\<forall>k<length (tasks st). \<forall>retries. tasks st ! k = InFlight retries \<longrightarrow>
        WriteIssued k \<in> set (trace st)) \<and>
     (\<forall>k. WriteSucceeded k \<in> set (trace st) \<longrightarrow> WriteIssued k \<in> set (trace st))"

text \<open>
  The events of one task as events of \<open>retryWithBackoff\<close>, and the state in which a task
  ends for a completion of \<open>retryWithBackoff\<close> (a promise that resolves to undefined is
  fulfilled).
\<close>

fun retry_view :: "nat \<Rightarrow> ('d, 'e) store_event \<Rightarrow> retry_event list" where
  "retry_view j (WriteIssued k) = (if k = j then [Invoked] else [])"
| "retry_view j (RetryLogged k retries delay) = (if k = j then [LoggedRetry retries delay] else [])"
| "retry_view j (TimerStarted k delay) = (if k = j then [Waited delay] else [])"
| "retry_view j ev = []"

definition settled_as :: "('e, 'a) completion \<Rightarrow> 'e task" where
  "settled_as c = (case c of Returned v \<Rightarrow> Fulfilled | Raised err \<Rightarrow> Rejected err | ReturnedUndefined \<Rightarrow> Fulfilled)"

section \<open>Properties of the retry helper\<close>

lemma world_before_Suc: "world_before fn s (Suc k) = world_before fn (snd (fn s)) k"
  unfolding world_before_def by (simp only: funpow_Suc_right o_apply)

lemma attempt_Suc: "attempt fn s (Suc k) = attempt fn (snd (fn s)) k"
  by (simp add: attempt_def world_before_Suc)

lemma attempt_0: "attempt fn s 0 = fst (fn s)"
  by (simp add: attempt_def world_before_def)

lemma backoff_0: "backoff D n 0 = []"
  by (simp add: backoff_def)

lemma backoff_Suc:
  "backoff D n (Suc r) =
     [Invoked, LoggedRetry (Suc n) (D * 2 ^ Suc n), Waited (D * 2 ^ Suc n)] @ backoff D (Suc n) r"
  by (simp add: backoff_def upt_conv_Cons del: upt_Suc)

text \<open>A budget that is whole and at least 1 is one more than a natural number.\<close>

lemma whole_budget:
  fixes M :: rat
  assumes "M \<in> \<int>" and "1 \<le> M"
  obtains m :: nat where "of_nat m + 1 = M" and "m = nat \<lfloor>M\<rfloor> - 1"
proof -
  from assms(1) obtain z where z: "M = of_int z" by (rule Ints_cases)
  with assms(2) have pos: "1 \<le> z" by simp
  define m where "m = nat (z - 1)"
  have "rat_of_nat m = of_int (z - 1)"
    unfolding m_def using pos by (simp only: of_nat_nat diff_ge_0_iff_ge)
  then have "of_nat m + 1 = M" by (simp add: z)
  moreover have "m = nat \<lfloor>M\<rfloor> - 1"
    using pos by (simp add: z m_def nat_diff_distrib)
  ultimately show ?thesis by (rule that)
qed

lemma retryLoop_failed_step:
  assumes "fst (fn s) = Inl e" and "of_nat n < M" and "of_nat (Suc n) \<noteq> M"
  shows "retryLoop fn M D n s tr =
     retryLoop fn M D (Suc n) (snd (fn s))
       (tr @ [Invoked, LoggedRetry (Suc n) (D * 2 ^ Suc n), Waited (D * 2 ^ Suc n)])"
  using assms by (subst retryLoop.simps) (auto split: prod.splits sum.splits)

lemma below_budget:
  fixes M :: rat
  assumes "of_nat (Suc n + r) < M"
  shows "of_nat n < M" and "of_nat (Suc n) \<noteq> M" and "of_nat (Suc n) < M"
proof -
  have "rat_of_nat (Suc n) \<le> of_nat (Suc n + r)" by simp
  with assms show lt: "of_nat (Suc n) < M" by simp
  then show "of_nat (Suc n) \<noteq> M" by simp
  have "rat_of_nat n \<le> of_nat (Suc n)" by simp
  with lt show "of_nat n < M" by simp
qed

lemma retryLoop_success:
  "\<forall>k<r. isl (attempt fn s k) \<Longrightarrow> attempt fn s r = Inr v \<Longrightarrow> of_nat (n + r) < M \<Longrightarrow>
   retryLoop fn M D n s tr = (Returned v, world_before fn s (Suc r), tr @ backoff D n r @ [Invoked])"
proof (induction r arbitrary: n s tr)
  case 0
  then show ?case
    by (subst retryLoop.simps)
       (auto simp: attempt_0 backoff_0 world_before_def split: prod.splits sum.splits)
next
  case (Suc r)
  from Suc.prems(1) have "isl (attempt fn s 0)" by blast
  then obtain e where e: "fst (fn s) = Inl e" by (auto simp: attempt_0 isl_def)
  have rest: "\<forall>k<r. isl (attempt fn (snd (fn s)) k)"
    using Suc.prems(1) by (auto simp: attempt_Suc [symmetric])
  have v: "attempt fn (snd (fn s)) r = Inr v"
    using Suc.prems(2) by (simp add: attempt_Suc)
  have lt: "of_nat (Suc n + r) < M" using Suc.prems(3) by simp
  note step = retryLoop_failed_step [where fn = fn and s = s and n = n and M = M,
      OF e below_budget(1,2) [OF lt]]
  show ?case
    unfolding step Suc.IH [OF rest v lt]
    by (simp add: backoff_Suc world_before_Suc)
qed

lemma retryLoop_exhaust:
  "\<forall>k\<le>r. isl (attempt fn s k) \<Longrightarrow> of_nat (n + r + 1) = M \<Longrightarrow>
   retryLoop fn M D n s tr =
     (Raised (projl (attempt fn s r)), world_before fn s (Suc r), tr @ backoff D n r @ [Invoked])"
proof (induction r arbitrary: n s tr)
  case 0
  then obtain e where e: "fst (fn s) = Inl e" by (auto simp: attempt_0 isl_def)
  from 0 have "of_nat n < M" "of_nat (n + 1) = M" by auto
  with e show ?case
    by (subst retryLoop.simps)
       (auto simp: attempt_0 backoff_0 world_before_def split: prod.splits sum.splits)
next
  case (Suc r)
  from Suc.prems(1) have "isl (attempt fn s 0)" by blast
  then obtain e where e: "fst (fn s) = Inl e" by (auto simp: attempt_0 isl_def)
  have rest: "\<forall>k\<le>r. isl (attempt fn (snd (fn s)) k)"
    using Suc.prems(1) by (auto simp: attempt_Suc [symmetric])
  have eq: "of_nat (Suc n + r + 1) = M" using Suc.prems(2) by simp
  have "rat_of_nat (Suc n + r) < of_nat (Suc n + r + 1)" by simp
  with eq have lt: "of_nat (Suc n + r) < M" by simp
  note step = retryLoop_failed_step [where fn = fn and s = s and n = n and M = M,
      OF e below_budget(1,2) [OF lt]]
  show ?case
    unfolding step Suc.IH [OF rest eq]
    by (simp add: backoff_Suc world_before_Suc attempt_Suc)
qed

lemma retryLoop_none: "\<not> of_nat n < M \<Longrightarrow> retryLoop fn M D n s tr = (ReturnedUndefined, s, tr)"
  by (subst retryLoop.simps) simp

text \<open>
  The loop ends by its test after \<open>r\<close> failures when no count reached on the way is the
  budget itself.
\<close>

lemma retryLoop_fall:
  "\<forall>k<r. isl (attempt fn s k) \<Longrightarrow>
   \<forall>k<r. of_nat (n + k) < M \<and> of_nat (Suc (n + k)) \<noteq> M \<Longrightarrow> \<not> of_nat (n + r) < M \<Longrightarrow>
   retryLoop fn M D n s tr = (ReturnedUndefined, world_before fn s r, tr @ backoff D n r)"
proof (induction r arbitrary: n s tr)
  case 0
  then show ?case by (simp add: retryLoop_none backoff_0 world_before_def)
next
  case (Suc r)
  from Suc.prems(1) have "isl (attempt fn s 0)" by blast
  then obtain e where e: "fst (fn s) = Inl e" by (auto simp: attempt_0 isl_def)
  have rest: "\<forall>k<r. isl (attempt fn (snd (fn s)) k)"
    using Suc.prems(1) by (auto simp: attempt_Suc [symmetric])
  from Suc.prems(2) have "of_nat (n + 0) < M \<and> of_nat (Suc (n + 0)) \<noteq> M" by blast
  then have first: "of_nat n < M" "of_nat (Suc n) \<noteq> M" by simp_all
  have later: "\<forall>k<r. of_nat (Suc n + k) < M \<and> of_nat (Suc (Suc n + k)) \<noteq> M"
  proof (intro allI impI)
    fix k assume "k < r"
    then have "Suc k < Suc r" by simp
    with Suc.prems(2) have "of_nat (n + Suc k) < M \<and> of_nat (Suc (n + Suc k)) \<noteq> M" by blast
    then show "of_nat (Suc n + k) < M \<and> of_nat (Suc (Suc n + k)) \<noteq> M" by simp
  qed
  have last: "\<not> of_nat (Suc n + r) < M" using Suc.prems(3) by simp
  note step = retryLoop_failed_step [where fn = fn and s = s and n = n and M = M, OF e first]
  show ?case
    unfolding step Suc.IH [OF rest later last]
    by (simp add: backoff_Suc world_before_Suc)
qed

lemma filter_backoff: "length (filter (\<lambda>ev. ev = Invoked) (backoff D n r)) = r"
  by (induction r arbitrary: n) (simp_all add: backoff_0 backoff_Suc)

lemma delays_backoff:
  "concat (map delay_of (backoff D n r)) = map (\<lambda>i. D * 2 ^ i) [Suc n..<Suc (n + r)]"
  by (induction r arbitrary: n) (simp_all add: backoff_0 backoff_Suc upt_conv_Cons del: upt_Suc)

lemma retryWithBackoff_success:
  assumes "\<forall>k<r. isl (attempt fn s k)" "attempt fn s r = Inr v" "of_nat r < M"
  shows "retryWithBackoff fn M D s =
    (Returned v, world_before fn s (Suc r), backoff D 0 r @ [Invoked])"
  using retryLoop_success [of r fn s v 0 M D "[]"] assms by (simp add: retryWithBackoff_def)

lemma retryWithBackoff_exhaust:
  assumes "\<forall>k\<le>r. isl (attempt fn s k)" "of_nat r + 1 = M"
  shows "retryWithBackoff fn M D s =
    (Raised (projl (attempt fn s r)), world_before fn s (Suc r), backoff D 0 r @ [Invoked])"
  using retryLoop_exhaust [of r fn s 0 M D "[]"] assms by (simp add: retryWithBackoff_def)

lemma retryWithBackoff_none: "M \<le> 0 \<Longrightarrow> retryWithBackoff fn M D s = (ReturnedUndefined, s, [])"
  by (simp add: retryWithBackoff_def retryLoop_none)

lemma retryWithBackoff_fall:
  assumes "M \<le> 0 \<or> M \<notin> \<int>" and "\<forall>k. of_nat k < M \<longrightarrow> isl (attempt fn s k)"
  shows "retryWithBackoff fn M D s =
    (ReturnedUndefined, world_before fn s (nat \<lceil>M\<rceil>), backoff D 0 (nat \<lceil>M\<rceil>))"
proof -
  define r where "r = nat \<lceil>M\<rceil>"
  have below: "of_nat k < M" if "k < r" for k
  proof -
    from that have "int k < \<lceil>M\<rceil>" by (simp add: r_def)
    then have "of_int (int k) < M" by (simp only: less_ceiling_iff)
    then show ?thesis by simp
  qed
  have differs: "of_nat (Suc k) \<noteq> M" if "k < r" for k
  proof
    assume eq: "of_nat (Suc k) = M"
    have "rat_of_nat (Suc k) \<in> \<int>" by (rule Ints_of_nat)
    with eq have "M \<in> \<int>" by simp
    moreover from eq have "0 < M" by (simp add: eq [symmetric] del: of_nat_Suc)
    ultimately show False using assms(1) by simp
  qed
  have above: "\<not> of_nat r < M"
  proof (cases "0 \<le> \<lceil>M\<rceil>")
    case True
    then have "rat_of_nat r = of_int \<lceil>M\<rceil>" by (simp only: r_def of_nat_nat)
    then show ?thesis by (simp add: not_less)
  next
    case False
    then have "\<lceil>M\<rceil> \<le> 0" by simp
    then have "M \<le> 0" by (simp only: ceiling_le_zero)
    moreover from False have "r = 0" by (simp add: r_def)
    ultimately show ?thesis by simp
  qed
  have "retryLoop fn M D 0 s [] = (ReturnedUndefined, world_before fn s r, [] @ backoff D 0 r)"
  proof (rule retryLoop_fall)
    show "\<forall>k<r. isl (attempt fn s k)" using below assms(2) by blast
    show "\<forall>k<r. of_nat (0 + k) < M \<and> of_nat (Suc (0 + k)) \<noteq> M" using below differs by simp
    show "\<not> of_nat (0 + r) < M" using above by simp
  qed
  then show ?thesis by (simp add: retryWithBackoff_def r_def)
qed

text \<open>
  A run has one of three shapes: the first success comes within the budget; or the
  budget is whole and positive and is used up by failures; or it is not and the loop
  ends by its test.
\<close>

lemma retryWithBackoff_shapes:
  obtains (success) r v where "of_nat r < M" "\<forall>k<r. isl (attempt fn s k)" "attempt fn s r = Inr v"
      "retryWithBackoff fn M D s = (Returned v, world_before fn s (Suc r), backoff D 0 r @ [Invoked])"
  | (exhaust) r where "of_nat r + 1 = M" "\<forall>k\<le>r. isl (attempt fn s k)"
      "retryWithBackoff fn M D s =
         (Raised (projl (attempt fn s r)), world_before fn s (Suc r), backoff D 0 r @ [Invoked])"
  | (fall) r where "M \<le> 0 \<or> M \<notin> \<int>"
      "retryWithBackoff fn M D s = (ReturnedUndefined, world_before fn s r, backoff D 0 r)"
proof (cases "\<exists>k. of_nat k < M \<and> \<not> isl (attempt fn s k)")
  case True
  define r where "r = (LEAST k. of_nat k < M \<and> \<not> isl (attempt fn s k))"
  from True have r: "of_nat r < M \<and> \<not> isl (attempt fn s r)"
    unfolding r_def by (rule LeastI_ex)
  have before: "\<forall>k<r. isl (attempt fn s k)"
  proof (intro allI impI)
    fix k assume "k < r"
    then have "\<not> (of_nat k < M \<and> \<not> isl (attempt fn s k))"
      unfolding r_def by (rule not_less_Least)
    moreover have "rat_of_nat k < of_nat r" using \<open>k < r\<close> by (simp only: of_nat_less_iff)
    with r have "of_nat k < M" by simp
    ultimately show "isl (attempt fn s k)" by simp
  qed
  from r obtain v where v: "attempt fn s r = Inr v"
    by (cases "attempt fn s r") auto
  from r have lt: "of_nat r < M" by simp
  from retryWithBackoff_success [OF before v lt, of D] lt before v show ?thesis
    by (rule success [of r v, rotated 3])
next
  case False
  then have all: "\<forall>k. of_nat k < M \<longrightarrow> isl (attempt fn s k)" by blast
  show ?thesis
  proof (cases "M \<in> \<int> \<and> 1 \<le> M")
    case True
    then obtain r :: nat where r: "of_nat r + 1 = M" by (auto elim: whole_budget)
    have fails: "\<forall>k\<le>r. isl (attempt fn s k)"
    proof (intro allI impI)
      fix k assume "k \<le> r"
      then have "rat_of_nat k \<le> of_nat r" by (simp only: of_nat_le_iff)
      with r have "of_nat k < M" by simp
      with all show "isl (attempt fn s k)" by blast
    qed
    from retryWithBackoff_exhaust [OF fails r, of D] r fails show ?thesis
      by (rule exhaust [of r, rotated 2])
  next
    case False
    have out: "M \<le> 0 \<or> M \<notin> \<int>"
    proof (cases "M \<in> \<int>")
      case True
      then obtain z where z: "M = of_int z" by (rule Ints_cases)
      with True False have "z < 1" by simp
      then have "z \<le> 0" by simp
      then show ?thesis by (simp add: z)
    next
      case False
      then show ?thesis by simp
    qed
    from out retryWithBackoff_fall [OF out all, of D] show ?thesis
      by (rule fall)
  qed
qed

text \<open>With a whole positive budget only the first two shapes remain.\<close>

lemma retryWithBackoff_cases:
  assumes "M \<in> \<int>" and "1 \<le> M"
  obtains (success) r v where "of_nat r < M" "\<forall>k<r. isl (attempt fn s k)" "attempt fn s r = Inr v"
      "retryWithBackoff fn M D s = (Returned v, world_before fn s (Suc r), backoff D 0 r @ [Invoked])"
  | (exhaust) r where "of_nat r + 1 = M" "\<forall>k\<le>r. isl (attempt fn s k)"
      "retryWithBackoff fn M D s =
         (Raised (projl (attempt fn s r)), world_before fn s (Suc r), backoff D 0 r @ [Invoked])"
proof (cases rule: retryWithBackoff_shapes [of M fn s D])
  case (success r v)
  then show ?thesis by (rule that(1))
next
  case (exhaust r)
  then show ?thesis by (rule that(2))
next
  case (fall r)
  with assms show ?thesis by simp
qed

lemma invocations_shape: "invocations (c, w, backoff D 0 r @ [Invoked]) = r + 1"
  by (simp add: invocations_def events_def filter_backoff)

lemma delays_shape: "delays (c, w, backoff D 0 r @ [Invoked]) = map (\<lambda>i. D * 2 ^ i) [1..<Suc r]"
  by (simp add: delays_def events_def delays_backoff del: upt_Suc)

lemma invocations_fall: "invocations (c, w, backoff D 0 r) = r"
  by (simp add: invocations_def events_def filter_backoff)

lemma delays_fall: "delays (c, w, backoff D 0 r) = map (\<lambda>i. D * 2 ^ i) [1..<Suc r]"
  by (simp add: delays_def events_def delays_backoff del: upt_Suc)

lemma attempt_flaky:
  "attempt (flaky r) s k = (if s + k < r then Inl ''write failed'' else Inr ''stored'')"
  by (induction k arbitrary: s) (simp_all add: attempt_0 attempt_Suc flaky_def)

lemma attempt_always_fails: "attempt always_fails s k = Inl ''write failed''"
  by (induction k arbitrary: s) (simp_all add: attempt_0 attempt_Suc always_fails_def)

lemma always_fails_run:
  "of_nat r + 1 = M \<Longrightarrow> retryWithBackoff always_fails M D 0 =
     (Raised ''write failed'', world_before always_fails 0 (Suc r), backoff D 0 r @ [Invoked])"
  using retryWithBackoff_exhaust [of r always_fails 0 M D] by (simp add: attempt_always_fails)

text \<open>
  C1. Let \<open>r < maxRetries\<close>. If the operation fails its first \<open>r\<close> invocations and
  succeeds on the next one, \<open>retryWithBackoff\<close> returns that success and has invoked the
  operation exactly \<open>r + 1\<close> times. If the operation fails on every invocation,
  \<open>retryWithBackoff\<close> raises the error of the last invocation, after exactly
  \<open>maxRetries\<close> invocations; a number of invocations equal to \<open>maxRetries\<close> presupposes
  that the budget is a whole number. (There is such an \<open>r\<close> exactly when \<open>maxRetries\<close> is
  positive.)
\<close>

theorem retry_policy:
  fixes r :: nat
  assumes "of_nat r < maxRetries"
  shows "((\<forall>k<r. isl (attempt fn s k)) \<and> attempt fn s r = Inr v \<longrightarrow>
            outcome (retryWithBackoff fn maxRetries initialDelay s) = Returned v \<and>
            invocations (retryWithBackoff fn maxRetries initialDelay s) = r + 1)
       \<and> (maxRetries \<in> \<int> \<and> (\<forall>k. isl (attempt fn s k)) \<longrightarrow>
            outcome (retryWithBackoff fn maxRetries initialDelay s) =
              Raised (projl (attempt fn s (nat \<lfloor>maxRetries\<rfloor> - 1))) \<and>
            of_nat (invocations (retryWithBackoff fn maxRetries initialDelay s)) = maxRetries)"
proof (intro conjI impI)
  assume a: "(\<forall>k<r. isl (attempt fn s k)) \<and> attempt fn s r = Inr v"
  then have run: "retryWithBackoff fn maxRetries initialDelay s =
      (Returned v, world_before fn s (Suc r), backoff initialDelay 0 r @ [Invoked])"
    using assms by (intro retryWithBackoff_success) simp_all
  show "outcome (retryWithBackoff fn maxRetries initialDelay s) = Returned v"
    by (simp add: run outcome_def)
  show "invocations (retryWithBackoff fn maxRetries initialDelay s) = r + 1"
    by (simp add: run invocations_shape)
next
  assume a: "maxRetries \<in> \<int> \<and> (\<forall>k. isl (attempt fn s k))"
  have "0 \<le> rat_of_nat r" by simp
  with assms have pos: "0 < maxRetries" by simp
  from a obtain z where z: "maxRetries = of_int z" by (auto elim: Ints_cases)
  with pos have "1 \<le> z" by simp
  then have one: "1 \<le> maxRetries" by (simp add: z)
  from a one obtain m :: nat where m: "of_nat m + 1 = maxRetries" "m = nat \<lfloor>maxRetries\<rfloor> - 1"
    by (auto elim: whole_budget)
  have run: "retryWithBackoff fn maxRetries initialDelay s =
      (Raised (projl (attempt fn s m)), world_before fn s (Suc m),
       backoff initialDelay 0 m @ [Invoked])"
    using a m(1) by (intro retryWithBackoff_exhaust) simp_all
  show "outcome (retryWithBackoff fn maxRetries initialDelay s) =
      Raised (projl (attempt fn s (nat \<lfloor>maxRetries\<rfloor> - 1)))"
    by (simp add: run outcome_def m(2))
  show "of_nat (invocations (retryWithBackoff fn maxRetries initialDelay s)) = maxRetries"
    using m(1) by (simp add: run invocations_shape)
qed

theorem retry_policy_witness:
  "outcome (retryWithBackoff (flaky 2) 3 1000 0) = Returned ''stored'' \<and>
   invocations (retryWithBackoff (flaky 2) 3 1000 0) = 3 \<and>
   outcome (retryWithBackoff always_fails 3 1000 0) = Raised ''write failed'' \<and>
   invocations (retryWithBackoff always_fails 3 1000 0) = 3"
proof -
  have "rat_of_nat (invocations (retryWithBackoff always_fails 3 1000 0)) = of_nat 3 \<and>
      outcome (retryWithBackoff always_fails 3 1000 0) = Raised ''write failed''"
    using retry_policy [of 2 3 always_fails 0 "''stored''" 1000]
    by (simp add: attempt_always_fails)
  then have "invocations (retryWithBackoff always_fails 3 1000 0) = 3 \<and>
      outcome (retryWithBackoff always_fails 3 1000 0) = Raised ''write failed''"
    by (simp only: of_nat_eq_iff)
  then show ?thesis
    using retry_policy [of 2 3 "flaky 2" 0 "''stored''" 1000]
    by (simp add: attempt_flaky)
qed

text \<open>
  C3, as stated, fails: with the default budget of 3, an operation that always fails is
  invoked three times in all, the initial attempt and two more, and then its error is
  raised. It is not invoked again three further times.
\<close>

theorem retry_attempt_bound_counterexample:
  "invocations (retryWithBackoff_default always_fails 0) = 3 \<and>
   outcome (retryWithBackoff_default always_fails 0) = Raised ''write failed'' \<and>
   invocations (retryWithBackoff_default always_fails 0) - 1 \<noteq> 3"
  by (simp add: retryWithBackoff_default_def defaultMaxRetries_def always_fails_run [of 2]
      invocations_shape outcome_def)

text \<open>
  C3, amended. With a whole budget \<open>maxRetries \<ge> 1\<close> (the default is 3) the operation is
  invoked at least once and at most \<open>maxRetries\<close> times in all: after the initial attempt
  it is invoked again at most \<open>maxRetries - 1\<close> times, and exactly that often when it
  fails every time.
\<close>

theorem retry_attempt_bound:
  assumes "maxRetries \<in> \<int>" and "1 \<le> maxRetries"
  shows "1 \<le> invocations (retryWithBackoff fn maxRetries initialDelay s) \<and>
         of_nat (invocations (retryWithBackoff fn maxRetries initialDelay s)) \<le> maxRetries \<and>
         of_nat (invocations (retryWithBackoff fn maxRetries initialDelay s) - 1) \<le> maxRetries - 1 \<and>
         ((\<forall>k. isl (attempt fn s k)) \<longrightarrow>
            of_nat (invocations (retryWithBackoff fn maxRetries initialDelay s) - 1) = maxRetries - 1)"
  using assms
proof (cases rule: retryWithBackoff_cases [of maxRetries fn s initialDelay])
  case (success r v)
  then have "\<not> (\<forall>k. isl (attempt fn s k))" by (auto intro: exI [of _ r])
  moreover from success(1) have "rat_of_nat r \<le> maxRetries - 1"
  proof -
    from assms(1) obtain z where z: "maxRetries = of_int z" by (rule Ints_cases)
    from success(1) have "rat_of_int (int r) < of_int z" by (simp add: z)
    then have "int r < z" by (simp only: of_int_less_iff)
    then have "int r \<le> z - 1" by simp
    then have "rat_of_int (int r) \<le> of_int (z - 1)" by (simp only: of_int_le_iff)
    then show ?thesis by (simp add: z)
  qed
  ultimately show ?thesis using success by (auto simp: invocations_shape)
next
  case (exhaust r)
  then show ?thesis by (auto simp: invocations_shape)
qed

theorem retry_attempt_bound_witness:
  "invocations (retryWithBackoff always_fails 3 1000 0) - 1 = 2"
proof -
  have "rat_of_nat (invocations (retryWithBackoff always_fails 3 1000 0) - 1) = of_nat 2"
    using retry_attempt_bound [of 3 always_fails 1000 0] by (simp add: attempt_always_fails)
  then show ?thesis by (simp only: of_nat_eq_iff)
qed

text \<open>
  C4. The delays that \<open>retryWithBackoff\<close> waits for are, in order,
  \<open>initialDelay * 2 ^ i\<close> for \<open>i = 1, 2, \<dots>\<close>, whatever the budget, and the \<open>i\<close>-th of them
  is waited for right after the \<open>i\<close>-th invocation has failed and the retry was logged;
  after the last delay comes the next invocation, if there is one. With a whole budget
  every delay is followed by an invocation, which is the \<open>i\<close>-th retry: the delays are
  those for \<open>i\<close> from 1 to the number of retries taken (the number of invocations less
  one). The initial delay defaults to 1000.
\<close>

theorem retry_delays:
  "delays (retryWithBackoff fn maxRetries initialDelay s) =
     map (\<lambda>i. initialDelay * 2 ^ i)
       [1..<Suc (length (delays (retryWithBackoff fn maxRetries initialDelay s)))] \<and>
   events (retryWithBackoff fn maxRetries initialDelay s) =
     concat (map (\<lambda>i. [Invoked, LoggedRetry i (initialDelay * 2 ^ i), Waited (initialDelay * 2 ^ i)])
               [1..<Suc (length (delays (retryWithBackoff fn maxRetries initialDelay s)))]) @
     replicate (invocations (retryWithBackoff fn maxRetries initialDelay s) -
                length (delays (retryWithBackoff fn maxRetries initialDelay s))) Invoked \<and>
   (maxRetries \<in> \<int> \<longrightarrow>
     delays (retryWithBackoff fn maxRetries initialDelay s) =
       map (\<lambda>i. initialDelay * 2 ^ i)
         [1..<invocations (retryWithBackoff fn maxRetries initialDelay s)]) \<and>
   (maxRetries \<in> \<int> \<and> 1 \<le> maxRetries \<longrightarrow>
     events (retryWithBackoff fn maxRetries initialDelay s) =
       concat (map (\<lambda>i. [Invoked, LoggedRetry i (initialDelay * 2 ^ i), Waited (initialDelay * 2 ^ i)])
                 [1..<invocations (retryWithBackoff fn maxRetries initialDelay s)]) @ [Invoked]) \<and>
   delays (retryWithBackoff_default fn s) =
     map (\<lambda>i. 1000 * 2 ^ i) [1..<invocations (retryWithBackoff_default fn s)]"
proof -
  have shape: "\<exists>c w r. retryWithBackoff fn M D s = (c, w, backoff D 0 r @ [Invoked])"
    if "M \<in> \<int>" "1 \<le> M" for M D
    using that by (cases rule: retryWithBackoff_cases [of M fn s D]) blast+
  have any: "\<exists>c w r t. retryWithBackoff fn M D s = (c, w, backoff D 0 r @ replicate t Invoked) \<and> t \<le> 1"
    for M D
  proof (cases rule: retryWithBackoff_shapes [of M fn s D])
    case (success r v)
    then have "retryWithBackoff fn M D s =
        (Returned v, world_before fn s (Suc r), backoff D 0 r @ replicate 1 Invoked)" by simp
    then show ?thesis by blast
  next
    case (exhaust r)
    then have "retryWithBackoff fn M D s =
        (Raised (projl (attempt fn s r)), world_before fn s (Suc r),
         backoff D 0 r @ replicate 1 Invoked)" by simp
    then show ?thesis by blast
  next
    case (fall r)
    then have "retryWithBackoff fn M D s =
        (ReturnedUndefined, world_before fn s r, backoff D 0 r @ replicate 0 Invoked)" by simp
    then show ?thesis by blast
  qed
  have count: "length (concat (map delay_of (backoff D 0 r))) = r" for D r
    by (simp add: delays_backoff del: upt_Suc)
  have tail: "concat (map delay_of (replicate t Invoked)) = []" for t
    by (induction t) simp_all
  have inv_tail: "length (filter (\<lambda>ev. ev = Invoked) (replicate t Invoked)) = t" for t
    by (induction t) simp_all
  have general: "delays (retryWithBackoff fn M D s) =
        map (\<lambda>i. D * 2 ^ i) [1..<Suc (length (delays (retryWithBackoff fn M D s)))] \<and>
      events (retryWithBackoff fn M D s) =
        concat (map (\<lambda>i. [Invoked, LoggedRetry i (D * 2 ^ i), Waited (D * 2 ^ i)])
                  [1..<Suc (length (delays (retryWithBackoff fn M D s)))]) @
        replicate (invocations (retryWithBackoff fn M D s) -
                   length (delays (retryWithBackoff fn M D s))) Invoked" for M D
  proof -
    from any [of M D] obtain c w r t
      where run: "retryWithBackoff fn M D s = (c, w, backoff D 0 r @ replicate t Invoked)" by blast
    have d: "delays (retryWithBackoff fn M D s) = map (\<lambda>i. D * 2 ^ i) [1..<Suc r]"
      by (simp add: run delays_def events_def delays_backoff tail del: upt_Suc)
    have n: "invocations (retryWithBackoff fn M D s) = r + t"
      by (simp add: run invocations_def events_def filter_backoff inv_tail)
    have l: "length (delays (retryWithBackoff fn M D s)) = r"
      unfolding d by simp
    show ?thesis
      unfolding l n unfolding d by (simp add: run events_def backoff_def del: upt_Suc)
  qed
  have whole: "delays (retryWithBackoff fn M D s) =
      map (\<lambda>i. D * 2 ^ i) [1..<invocations (retryWithBackoff fn M D s)]" if "M \<in> \<int>" for M D
  proof (cases "1 \<le> M")
    case True
    from shape [OF that True, of D] obtain c w r
      where "retryWithBackoff fn M D s = (c, w, backoff D 0 r @ [Invoked])" by blast
    then show ?thesis
      by (simp only: invocations_shape delays_shape) simp
  next
    case False
    from that obtain z where z: "M = of_int z" by (rule Ints_cases)
    with False have "z < 1" by simp
    then have "z \<le> 0" by simp
    then have "M \<le> 0" by (simp add: z)
    then show ?thesis
      by (simp add: retryWithBackoff_none delays_def invocations_def events_def)
  qed
  have ev: "events (retryWithBackoff fn maxRetries initialDelay s) =
       concat (map (\<lambda>i. [Invoked, LoggedRetry i (initialDelay * 2 ^ i), Waited (initialDelay * 2 ^ i)])
                 [1..<invocations (retryWithBackoff fn maxRetries initialDelay s)]) @ [Invoked]"
    if "maxRetries \<in> \<int>" "1 \<le> maxRetries"
  proof -
    from shape [OF that, of initialDelay] obtain c w r
      where run: "retryWithBackoff fn maxRetries initialDelay s =
        (c, w, backoff initialDelay 0 r @ [Invoked])"
      by blast
    have n: "invocations (retryWithBackoff fn maxRetries initialDelay s) = r + 1"
      by (simp only: run invocations_shape)
    show ?thesis
      unfolding n by (simp add: run events_def backoff_def del: upt_Suc)
  qed
  have three: "(3::rat) \<in> \<int>" by simp
  show ?thesis
    using general [of maxRetries initialDelay] whole [of maxRetries initialDelay] whole [OF three, of 1000] ev
    by (simp add: retryWithBackoff_default_def defaultMaxRetries_def defaultInitialDelay_def)
qed

theorem retry_delays_witness:
  "delays (retryWithBackoff always_fails 3 1000 0) = [2000, 4000] \<and>
   events (retryWithBackoff always_fails 3 1000 0) =
     [Invoked, LoggedRetry 1 2000, Waited 2000, Invoked, LoggedRetry 2 4000, Waited 4000, Invoked]"
proof -
  have n: "invocations (retryWithBackoff always_fails 3 1000 0) = 3"
    by (simp add: always_fails_run [of 2] invocations_shape)
  have up: "[1..<3] = [1, 2::nat]" by (simp add: upt_conv_Cons)
  show ?thesis
    using retry_delays [of always_fails 3 1000 0] unfolding n up by simp
qed

text \<open>
  C10, as stated, fails: the budget is a number, and with \<open>maxRetries = 1.5\<close> an operation
  that always fails is invoked twice, the counter passes from 1 to 2 without being equal
  to the budget, both errors are caught, and the loop ends by its test: the call returns
  undefined.
\<close>

theorem retry_zero_budget_counterexample:
  "(1::rat) \<le> 3 / 2 \<and>
   outcome (retryWithBackoff always_fails (3 / 2) 1000 0) = ReturnedUndefined \<and>
   invocations (retryWithBackoff always_fails (3 / 2) 1000 0) = 2 \<and>
   events (retryWithBackoff always_fails (3 / 2) 1000 0) =
     [Invoked, LoggedRetry 1 2000, Waited 2000, Invoked, LoggedRetry 2 4000, Waited 4000]"
  by (simp add: retryWithBackoff_def retryLoop.simps always_fails_def outcome_def invocations_def
      events_def)

text \<open>
  C10, amended. Called with \<open>maxRetries = 0\<close>, \<open>retryWithBackoff\<close> returns undefined and
  never invokes the operation. For every whole \<open>maxRetries \<ge> 1\<close> it does not fall
  through: it invokes the operation at least once and either returns the value of its
  last invocation or raises the error of its last invocation, the latter only when the
  budget is used up.
\<close>

theorem retry_zero_budget:
  "retryWithBackoff fn 0 initialDelay s = (ReturnedUndefined, s, []) \<and>
   invocations (retryWithBackoff fn 0 initialDelay s) = 0 \<and>
   (maxRetries \<in> \<int> \<and> 1 \<le> maxRetries \<longrightarrow>
      outcome (retryWithBackoff fn maxRetries initialDelay s) \<noteq> ReturnedUndefined \<and>
      1 \<le> invocations (retryWithBackoff fn maxRetries initialDelay s) \<and>
      outcome (retryWithBackoff fn maxRetries initialDelay s) =
        (case attempt fn s (invocations (retryWithBackoff fn maxRetries initialDelay s) - 1) of
           Inr v \<Rightarrow> Returned v | Inl err \<Rightarrow> Raised err) \<and>
      (\<forall>err. outcome (retryWithBackoff fn maxRetries initialDelay s) = Raised err \<longrightarrow>
         of_nat (invocations (retryWithBackoff fn maxRetries initialDelay s)) = maxRetries))"
proof (intro conjI impI)
  show "retryWithBackoff fn 0 initialDelay s = (ReturnedUndefined, s, [])"
    by (simp add: retryWithBackoff_none)
  then show "invocations (retryWithBackoff fn 0 initialDelay s) = 0"
    by (simp add: invocations_def events_def)
next
  assume m: "maxRetries \<in> \<int> \<and> 1 \<le> maxRetries"
  let ?run = "retryWithBackoff fn maxRetries initialDelay s"
  from m have m1: "maxRetries \<in> \<int>" and m2: "1 \<le> maxRetries" by simp_all
  have "outcome ?run \<noteq> ReturnedUndefined \<and> 1 \<le> invocations ?run \<and>
      outcome ?run = (case attempt fn s (invocations ?run - 1) of
                        Inr v \<Rightarrow> Returned v | Inl err \<Rightarrow> Raised err) \<and>
      (\<forall>err. outcome ?run = Raised err \<longrightarrow> of_nat (invocations ?run) = maxRetries)"
    using m1 m2
  proof (cases rule: retryWithBackoff_cases [of maxRetries fn s initialDelay])
    case (success r v)
    then show ?thesis by (simp add: invocations_shape outcome_def)
  next
    case (exhaust r)
    then have "isl (attempt fn s r)" by simp
    then obtain err where "attempt fn s r = Inl err" by (auto simp: isl_def)
    with exhaust show ?thesis by (auto simp: invocations_shape outcome_def)
  qed
  then show "outcome ?run \<noteq> ReturnedUndefined" "1 \<le> invocations ?run"
    "outcome ?run = (case attempt fn s (invocations ?run - 1) of
                       Inr v \<Rightarrow> Returned v | Inl err \<Rightarrow> Raised err)"
    "\<forall>err. outcome ?run = Raised err \<longrightarrow> of_nat (invocations ?run) = maxRetries"
    by blast+
qed

theorem retry_zero_budget_witness:
  "outcome (retryWithBackoff always_fails 2 1000 0) = Raised ''write failed'' \<and>
   invocations (retryWithBackoff always_fails 2 1000 0) = 2"
proof -
  have a: "outcome (retryWithBackoff always_fails 2 1000 0) = Raised ''write failed''"
    using retry_zero_budget [of always_fails 1000 0 2]
    by (simp add: attempt_always_fails)
  have "rat_of_nat (invocations (retryWithBackoff always_fails 2 1000 0)) = of_nat 2"
    using retry_zero_budget [of always_fails 1000 0 2] a by simp
  then have b: "invocations (retryWithBackoff always_fails 2 1000 0) = 2"
    by (simp only: of_nat_eq_iff)
  show ?thesis using a b by simp
qed

section \<open>Properties of the loader, the pipeline and the chain\<close>

lemma render_template:
  "interpolate [''context'' \<mapsto> c, ''question'' \<mapsto> q] None template =
     Some (''Answer the following question based on the context:'' @ newline @
           ''        Context: '' @ c @ newline @
           ''        Question: '' @ q @ newline @
           ''        Answer:'')"
  by (simp add: template_def newline_def)

lemma loadLoop_eq:
  "loadLoop p dir files documents out =
     (documents @ List.map_filter (\<lambda>file. fst (loadFile p dir file)) files,
      out @ concat (map (\<lambda>file. snd (loadFile p dir file)) files))"
  by (induction files arbitrary: documents out)
     (auto simp: List.map_filter_simps split: prod.splits option.splits)

lemma loadFile_Some_iff: "fst (loadFile p dir file) \<noteq> None \<longleftrightarrow> loads p dir file"
  by (auto simp: loadFile_def loads_def recognized_def Let_def split: sum.splits)

lemma loadFile_unrecognized: "\<not> recognized p file \<Longrightarrow> loadFile p dir file = (None, [WarnUnsupported file])"
  by (simp add: loadFile_def recognized_def Let_def)

lemma loadFile_source: "fst (loadFile p dir file) = Some doc \<Longrightarrow> metadata doc ''source'' = Some file"
  by (auto simp: loadFile_def Let_def split: sum.splits if_splits)


lemma join_eq:
  "join sep xs = (if xs = [] then [] else hd xs @ concat (map (\<lambda>x. sep @ x) (tl xs)))"
  by (induction sep xs rule: join.induct) simp_all

text \<open>
  C7. For every directory listing, \<open>loadDocumentsFromDirectory\<close> returns, in the order of
  the listing, exactly the documents of the files that load: one document for each file
  whose extension is recognized and that is read (and, for markup, parsed) without
  failure, and none for any other file. A file with an unrecognized extension gives a
  warning only; a failure is caught inside the iteration of that file and the scan goes
  on. The result is therefore as long as the list of the files that load, which is at
  most the length of the listing, and document number \<open>k\<close> has the \<open>k\<close>-th such file as
  its source.
\<close>

theorem loader_partial_failure:
  assumes "readdir p directoryPath = Inr files"
  shows "fst (loadDocumentsFromDirectory p directoryPath) =
           Inr (List.map_filter (\<lambda>file. fst (loadFile p directoryPath file)) files) \<and>
         (\<forall>file. fst (loadFile p directoryPath file) \<noteq> None \<longleftrightarrow> loads p directoryPath file) \<and>
         (\<forall>file. \<not> recognized p file \<longrightarrow>
            loadFile p directoryPath file = (None, [WarnUnsupported file])) \<and>
         map (\<lambda>doc. metadata doc ''source'')
             (List.map_filter (\<lambda>file. fst (loadFile p directoryPath file)) files) =
           map Some (filter (loads p directoryPath) files) \<and>
         length (List.map_filter (\<lambda>file. fst (loadFile p directoryPath file)) files) =
           length (filter (loads p directoryPath) files) \<and>
         length (List.map_filter (\<lambda>file. fst (loadFile p directoryPath file)) files) \<le> length files"
proof -
  let ?docs = "List.map_filter (\<lambda>file. fst (loadFile p directoryPath file)) files"
  have result: "fst (loadDocumentsFromDirectory p directoryPath) = Inr ?docs"
    using assms by (simp add: loadDocumentsFromDirectory_def loadLoop_eq)
  have sources: "map (\<lambda>doc. metadata doc ''source'')
        (List.map_filter (\<lambda>file. fst (loadFile p directoryPath file)) fs) =
      map Some (filter (loads p directoryPath) fs)" for fs
  proof (induction fs)
    case Nil
    show ?case by (simp add: List.map_filter_simps)
  next
    case (Cons f fs)
    show ?case
    proof (cases "fst (loadFile p directoryPath f)")
      case None
      then have "\<not> loads p directoryPath f" using loadFile_Some_iff [of p directoryPath f] by simp
      with None Cons show ?thesis by (simp add: List.map_filter_simps)
    next
      case (Some doc)
      then have "loads p directoryPath f" using loadFile_Some_iff [of p directoryPath f] by simp
      with Some Cons loadFile_source [OF Some] show ?thesis by (simp add: List.map_filter_simps)
    qed
  qed
  have len: "length ?docs = length (filter (loads p directoryPath) files)"
    using arg_cong [OF sources [of files], of length] by simp
  have le: "length ?docs \<le> length files" unfolding len by simp
  show ?thesis
  proof (intro conjI allI impI)
    show "fst (loadDocumentsFromDirectory p directoryPath) = Inr ?docs" by (rule result)
    show "map (\<lambda>doc. metadata doc ''source'') ?docs = map Some (filter (loads p directoryPath) files)"
      by (rule sources)
    show "length ?docs = length (filter (loads p directoryPath) files)" by (rule len)
    show "length ?docs \<le> length files" by (rule le)
    show "fst (loadFile p directoryPath name) \<noteq> None \<longleftrightarrow> loads p directoryPath name" for name
      by (rule loadFile_Some_iff)
    show "loadFile p directoryPath name = (None, [WarnUnsupported name])"
      if "\<not> recognized p name" for name
      using that by (rule loadFile_unrecognized)
  qed
qed

lemma docs_ext:
  "map lower_char (plain_extname ''a.md'') = ''.md''"
  "map lower_char (plain_extname ''b.unknown'') = ''.unknown''"
  "map lower_char (plain_extname ''empty.md'') = ''.md''"
  "map lower_char (plain_extname ''broken.TXT'') = ''.txt''"
  by (simp_all add: plain_extname_def lower_char_def)

lemma docs_loadFile:
  "loadFile docs_platform ''docs'' ''a.md'' =
     (Some \<lparr>pageContent = ''Hello world'', metadata = [''source'' \<mapsto> ''a.md'']\<rparr>, [])"
  "loadFile docs_platform ''docs'' ''b.unknown'' = (None, [WarnUnsupported ''b.unknown''])"
  "loadFile docs_platform ''docs'' ''empty.md'' =
     (Some \<lparr>pageContent = [], metadata = [''source'' \<mapsto> ''empty.md'']\<rparr>, [])"
  "loadFile docs_platform ''docs'' ''broken.TXT'' = (None, [ErrorProcessing ''broken.TXT'' ''EACCES''])"
  by (simp_all add: loadFile_def docs_platform_def docs_ext docs_path_join_def docs_readFile_def)


theorem loader_partial_failure_witness:
  "fst (loadDocumentsFromDirectory docs_platform ''docs'') =
     Inr [\<lparr>pageContent = ''Hello world'', metadata = [''source'' \<mapsto> ''a.md'']\<rparr>,
          \<lparr>pageContent = [], metadata = [''source'' \<mapsto> ''empty.md'']\<rparr>] \<and>
   filter (loads docs_platform ''docs'') [''a.md'', ''b.unknown'', ''empty.md'', ''broken.TXT''] =
     [''a.md'', ''empty.md'']"
proof -
  have files: "readdir docs_platform ''docs'' = Inr [''a.md'', ''b.unknown'', ''empty.md'', ''broken.TXT'']"
    by (simp add: docs_platform_def docs_readdir_def)
  have "map Some (filter (loads docs_platform ''docs'') [''a.md'', ''b.unknown'', ''empty.md'', ''broken.TXT'']) =
      map Some [''a.md'', ''empty.md'']"
    using loader_partial_failure [OF files]
    by (simp add: docs_loadFile List.map_filter_simps)
  then have "filter (loads docs_platform ''docs'') [''a.md'', ''b.unknown'', ''empty.md'', ''broken.TXT''] =
      [''a.md'', ''empty.md'']"
    by (simp only: inj_map_eq_map [OF inj_Some])
  moreover have "fst (loadDocumentsFromDirectory docs_platform ''docs'') =
     Inr [\<lparr>pageContent = ''Hello world'', metadata = [''source'' \<mapsto> ''a.md'']\<rparr>,
          \<lparr>pageContent = [], metadata = [''source'' \<mapsto> ''empty.md'']\<rparr>]"
    using loader_partial_failure [OF files]
    by (simp add: docs_loadFile List.map_filter_simps)
  ultimately show ?thesis by simp
qed




text \<open>
  C6. For every source, \<open>initializeChatbot\<close> called with a source type other than
  \<^verbatim>\<open>directory\<close>, \<^verbatim>\<open>url\<close> and \<^verbatim>\<open>github\<close> is rejected with the error ``Invalid source type''
  and has done nothing before: no load was started, nothing was split, no event of the
  vector store happened, and the world is as it was.
\<close>

theorem invalid_source_type:
  assumes "sourceType \<notin> {''directory'', ''url'', ''github''}"
  shows "initializeChatbot p splitText write source sourceType schedule w =
           Some \<lparr>settled = Some (Inl (JsError ''Invalid source type'')), effects = [], final_world = w\<rparr>"
  using assms by (simp add: initializeChatbot_def)

theorem invalid_source_type_witness:
  "initializeChatbot docs_platform whole_text stored ''docs'' ''pdf'' [] (0::nat) =
     Some \<lparr>settled = Some (Inl (JsError ''Invalid source type'')), effects = [], final_world = 0\<rparr>"
  using invalid_source_type [of "''pdf''" docs_platform whole_text stored "''docs''" "[]" "0::nat"]
  by simp

text \<open>
  C8. For every question: when the retriever answers with documents, the chain invokes
  the model exactly once, with the template in which \<^verbatim>\<open>{context}\<close> is replaced by the
  context and \<^verbatim>\<open>{question}\<close> by the question, and what the model answers (a response
  or a rejection) is what \<open>askQuestion\<close> returns. The context is the contents of the
  retrieved documents, in order, with one newline between each two of them: nothing
  when no document was retrieved, and otherwise the first content followed by every
  further content with a newline put before it. When the retriever rejects, that
  rejection is returned and the model is not invoked. Each service is called at most
  once, so nothing is retried.
\<close>

theorem question_answering:
  "(getRelevantDocuments srv question w = (Inr docs, w1) \<and>
    context =
      (if docs = [] then []
       else pageContent (hd docs) @ concat (map (\<lambda>doc. newline @ pageContent doc) (tl docs))) \<and>
    invoke_model srv (rendered context question) w1 = (answer, w2) \<longrightarrow>
      askQuestion (createChatbot srv) question w =
        (map_sum LibraryError id answer, w2,
         [Retrieved question, Prompted (rendered context question)])) \<and>
   (getRelevantDocuments srv question w = (Inl err, w1) \<longrightarrow>
      askQuestion (createChatbot srv) question w = (Inl (LibraryError err), w1, [Retrieved question]))"
proof (intro conjI impI)
  assume a: "getRelevantDocuments srv question w = (Inr docs, w1) \<and>
    context =
      (if docs = [] then []
       else pageContent (hd docs) @ concat (map (\<lambda>doc. newline @ pageContent doc) (tl docs))) \<and>
    invoke_model srv (rendered context question) w1 = (answer, w2)"
  have "join newline (map pageContent docs) = context"
    using a by (simp add: join_eq hd_map map_tl comp_def)
  with a show "askQuestion (createChatbot srv) question w =
        (map_sum LibraryError id answer, w2,
         [Retrieved question, Prompted (rendered context question)])"
    by (auto simp: askQuestion_def createChatbot_def Let_def render_template [folded rendered_def]
        split: sum.splits)
next
  assume "getRelevantDocuments srv question w = (Inl err, w1)"
  then show "askQuestion (createChatbot srv) question w = (Inl (LibraryError err), w1, [Retrieved question])"
    by (simp add: askQuestion_def createChatbot_def)
qed

theorem question_answering_witness:
  "askQuestion (createChatbot widget_services) ''What is X?'' 0 =
     (Inr ''X is a widget, according to the context.'', 2,
      [Retrieved ''What is X?'',
       Prompted (''Answer the following question based on the context:'' @ newline @
                 ''        Context: X is a widget.'' @ newline @
                 ''A widget has a handle.'' @ newline @
                 ''Widgets are small.'' @ newline @
                 ''        Question: What is X?'' @ newline @
                 ''        Answer:'')])"
  using question_answering [of widget_services "''What is X?''" 0
      "[\<lparr>pageContent = ''X is a widget.'', metadata = [''source'' \<mapsto> ''x.md'']\<rparr>,
        \<lparr>pageContent = ''A widget has a handle.'', metadata = [''source'' \<mapsto> ''y.md'']\<rparr>,
        \<lparr>pageContent = ''Widgets are small.'', metadata = [''source'' \<mapsto> ''x.md'']\<rparr>]" 1
      "''X is a widget.'' @ newline @ ''A widget has a handle.'' @ newline @ ''Widgets are small.''"
      "Inr ''X is a widget, according to the context.''" 2 "''none''"]
  by (simp add: widget_services_def widget_retriever_def widget_model_def rendered_def)

section \<open>Properties of the writes to the vector store\<close>

lemma batchSize_pos: "0 < batchSize" by (simp add: batchSize_def)

lemma concurrency_pos: "0 < concurrency" by (simp add: concurrency_def)

lemma upper_eq: "upper docs i = min (i + batchSize) (max i (length docs))"
  by (auto simp: upper_def slice_def)

lemma finite_active: "finite (active st)"
  by (simp add: active_def)

lemma active_update:
  "j < length (tasks st) \<Longrightarrow>
   active (st\<lparr>tasks := (tasks st)[j := v]\<rparr>) =
     (if suspended v then insert j (active st) else active st - {j})"
  by (auto simp: active_def nth_list_update)

lemma suspended_simps [simp]:
  "suspended (InFlight r)" "suspended (Sleeping r)" "\<not> suspended NotCreated" "\<not> suspended Queued"
  "\<not> suspended Fulfilled" "\<not> suspended (Rejected e)"
  by (simp_all add: suspended_def)

lemma active_cong: "tasks st' = tasks st \<Longrightarrow> active st' = active st"
  by (simp add: active_def)

text \<open>Handing the next document of the batch to the limiter keeps the shape.\<close>

lemma shape_limit:
  assumes "shape docs a c st" "c < length docs"
  shows "shape docs a (Suc c) (limit c st)"
proof -
  from assms(1) obtain q where len: "length (tasks st) = length docs" and ac: "a \<le> c"
    and below: "\<forall>j<a. tasks st ! j = Fulfilled"
    and fresh: "\<forall>j. c \<le> j \<and> j < length docs \<longrightarrow> tasks st ! j = NotCreated"
    and q: "a \<le> q" "q \<le> c" "queue st = [q..<c]"
    and started: "\<forall>j. a \<le> j \<and> j < q \<longrightarrow> tasks st ! j \<noteq> NotCreated \<and> tasks st ! j \<noteq> Queued"
    and queued: "\<forall>j. q \<le> j \<and> j < c \<longrightarrow> tasks st ! j = Queued"
    and full: "q < c \<longrightarrow> activeCount st = concurrency"
    and le: "activeCount st \<le> concurrency"
    and cnt: "activeCount st = card (active st)"
    unfolding shape_def by blast
  have cnew: "tasks st ! c = NotCreated" using fresh assms(2) by simp
  then have cna: "c \<notin> active st" by (simp add: active_def)
  show ?thesis
  proof (cases "activeCount st < concurrency")
    case True
    then have qc: "q = c" using full q by auto
    have st': "limit c st = st\<lparr>tasks := (tasks st)[c := InFlight 0], activeCount := activeCount st + 1,
        trace := trace st @ [WriteIssued c]\<rparr>"
      using True by (simp add: limit_def run_job_def)
    have act: "active (limit c st) = insert c (active st)"
      unfolding st' using assms(2) len by (auto simp: active_def nth_list_update)
    show ?thesis
      unfolding shape_def
    proof (intro conjI)
      show "\<exists>q'. a \<le> q' \<and> q' \<le> Suc c \<and> queue (limit c st) = [q'..<Suc c] \<and>
          (\<forall>j. a \<le> j \<and> j < q' \<longrightarrow> tasks (limit c st) ! j \<noteq> NotCreated \<and> tasks (limit c st) ! j \<noteq> Queued) \<and>
          (\<forall>j. q' \<le> j \<and> j < Suc c \<longrightarrow> tasks (limit c st) ! j = Queued) \<and>
          (q' < Suc c \<longrightarrow> activeCount (limit c st) = concurrency)"
        using q qc started ac len assms(2)
        by (intro exI [of _ "Suc c"]) (auto simp: st' nth_list_update less_Suc_eq)
      show "activeCount (limit c st) = card (active (limit c st))"
        unfolding act using cna cnt finite_active [of st] by (simp add: st')
    qed (use True len ac assms(2) below fresh in \<open>auto simp: st' nth_list_update\<close>)
  next
    case False
    then have eq: "activeCount st = concurrency" using le by simp
    have st': "limit c st = st\<lparr>tasks := (tasks st)[c := Queued], queue := queue st @ [c]\<rparr>"
      using False by (simp add: limit_def)
    have act: "active (limit c st) = active st"
      unfolding st' using assms(2) len cna by (auto simp: active_def nth_list_update)
    show ?thesis
      unfolding shape_def
    proof (intro conjI)
      show "\<exists>q'. a \<le> q' \<and> q' \<le> Suc c \<and> queue (limit c st) = [q'..<Suc c] \<and>
          (\<forall>j. a \<le> j \<and> j < q' \<longrightarrow> tasks (limit c st) ! j \<noteq> NotCreated \<and> tasks (limit c st) ! j \<noteq> Queued) \<and>
          (\<forall>j. q' \<le> j \<and> j < Suc c \<longrightarrow> tasks (limit c st) ! j = Queued) \<and>
          (q' < Suc c \<longrightarrow> activeCount (limit c st) = concurrency)"
        using q started queued eq ac len assms(2)
        by (intro exI [of _ q]) (auto simp: st' nth_list_update less_Suc_eq)
      show "activeCount (limit c st) = card (active (limit c st))"
        unfolding act using cnt by (simp add: st')
    qed (use le len ac assms(2) below fresh in \<open>auto simp: st' nth_list_update\<close>)
  qed
qed

lemma shape_fold_limit:
  assumes "shape docs a c st" "c \<le> c'" "c' \<le> length docs"
  shows "shape docs a c' (fold limit [c..<c'] st)"
  using assms(2,3)
proof (induction c')
  case 0
  with assms(1) show ?case by simp
next
  case (Suc c')
  show ?case
  proof (cases "c = Suc c'")
    case True
    with assms(1) show ?thesis by simp
  next
    case False
    with Suc.prems have le: "c \<le> c'" "c' \<le> length docs" "c' < length docs" by simp_all
    from Suc.IH [OF le(1,2)] have "shape docs a c' (fold limit [c..<c'] st)" .
    from shape_limit [OF this le(3)] le(1) show ?thesis by simp
  qed
qed

lemma sequenced_append:
  assumes "sequenced tr"
    and "\<forall>j j'. WriteIssued j \<in> set evs \<and> j' div batchSize < j div batchSize \<longrightarrow> TaskFulfilled j' \<in> set tr"
  shows "sequenced (tr @ evs)"
  unfolding sequenced_def
proof (intro allI impI, elim conjE)
  fix p j j'
  assume p: "p < length (tr @ evs)" and at: "(tr @ evs) ! p = WriteIssued j"
    and lt: "j' div batchSize < j div batchSize"
  show "\<exists>p'<p. (tr @ evs) ! p' = TaskFulfilled j'"
  proof (cases "p < length tr")
    case True
    with at have "tr ! p = WriteIssued j" by (simp add: nth_append)
    with assms(1) True lt obtain p' where "p' < p" "tr ! p' = TaskFulfilled j'"
      unfolding sequenced_def by blast
    with True show ?thesis by (intro exI [of _ p']) (simp add: nth_append)
  next
    case False
    with p at have "WriteIssued j \<in> set evs"
      by (metis in_set_conv_nth length_append nth_append add_diff_inverse_nat nat_add_left_cancel_less)
    with assms(2) lt have "TaskFulfilled j' \<in> set tr" by blast
    then obtain p' where "p' < length tr" "tr ! p' = TaskFulfilled j'"
      by (auto simp: in_set_conv_nth)
    with False show ?thesis by (intro exI [of _ p']) (simp add: nth_append)
  qed
qed

lemma sequenced_Nil: "sequenced []"
  by (simp add: sequenced_def)

lemma reported_Suc:
  "reported docs (Suc m) = reported docs m @ report docs m"
  by (simp add: reported_def)

lemma rejections_append: "rejections (tr @ evs) = rejections tr @ rejections evs"
  by (simp add: rejections_def)

lemma rejections_empty_iff: "rejections tr = [] \<longleftrightarrow> (\<forall>j e. TaskRejected j e \<notin> set tr)"
proof (induction tr)
  case Nil
  show ?case by (simp add: rejections_def)
next
  case (Cons ev tr)
  then show ?case by (cases ev) (auto simp: rejections_def)
qed

lemma shape_irrelevant [simp]:
  "shape docs a c (st\<lparr>trace := tr\<rparr>) = shape docs a c st"
  "shape docs a c (st\<lparr>world := w\<rparr>) = shape docs a c st"
  "shape docs a c (st\<lparr>control := k\<rparr>) = shape docs a c st"
  by (simp_all add: shape_def active_def)

lemma history_irrelevant [simp]:
  "history docs m c (st\<lparr>world := w\<rparr>) = history docs m c st"
  "history docs m c (st\<lparr>control := k\<rparr>) = history docs m c st"
  "history docs m c (st\<lparr>activeCount := n\<rparr>) = history docs m c st"
  "history docs m c (st\<lparr>queue := q\<rparr>) = history docs m c st"
  by (simp_all add: history_def)

lemma batch_div:
  assumes "m * batchSize \<le> j" "j < m * batchSize + batchSize"
  shows "j div batchSize = m"
  using assms by (metis add.commute div_nat_eqI mult.commute mult_Suc_right)

lemma earlier_batch:
  assumes "j' div batchSize < m"
  shows "j' < m * batchSize"
  using assms batchSize_pos by (simp add: div_less_iff_less_mult)

lemma milestone_simps [simp]:
  "milestone (BatchSliced i batch)" "milestone (Progress k len)"
  "\<not> milestone (WriteIssued j)" "\<not> milestone (WriteSucceeded j)" "\<not> milestone (WriteFailed j e)"
  "\<not> milestone (RetryLogged j r d)" "\<not> milestone (TimerStarted j d)" "\<not> milestone (TimerFired j)"
  "\<not> milestone (TaskFulfilled j)" "\<not> milestone (TaskRejected j e)"
  by (simp_all add: milestone_def)

text \<open>What a well-shaped batch says about a suspended task.\<close>

lemma shape_suspended:
  assumes "shape docs a c st" "j < length docs" "suspended (tasks st ! j)"
  shows "a \<le> j \<and> j < c \<and> j \<notin> set (queue st) \<and> 0 < activeCount st"
proof -
  from assms(1) obtain q where len: "length (tasks st) = length docs"
    and below: "\<forall>j<a. tasks st ! j = Fulfilled"
    and fresh: "\<forall>j. c \<le> j \<and> j < length docs \<longrightarrow> tasks st ! j = NotCreated"
    and q: "queue st = [q..<c]"
    and queued: "\<forall>j. q \<le> j \<and> j < c \<longrightarrow> tasks st ! j = Queued"
    and cnt: "activeCount st = card (active st)"
    unfolding shape_def by blast
  have "a \<le> j" using below assms(3) by (cases "j < a") auto
  moreover have "j < c" using fresh assms(2,3) by (cases "c \<le> j") auto
  moreover have "j \<notin> set (queue st)" using queued assms(3) q by auto
  moreover have "j \<in> active st" using assms(2,3) len by (simp add: active_def)
  then have "0 < activeCount st" using cnt finite_active [of st] by (auto simp: card_gt_0_iff)
  ultimately show ?thesis by simp
qed

lemma history_issue:
  assumes "history docs m c st" "shape docs (m * batchSize) c st"
    and "m * batchSize \<le> j" "j < m * batchSize + batchSize"
  shows "sequenced (trace st @ [WriteIssued j])"
proof (rule sequenced_append)
  show "sequenced (trace st)" using assms(1) by (simp add: history_def)
  show "\<forall>k j'. WriteIssued k \<in> set [WriteIssued j] \<and> j' div batchSize < k div batchSize \<longrightarrow>
      TaskFulfilled j' \<in> set (trace st)"
  proof (intro allI impI, elim conjE)
    fix k j' assume "WriteIssued k \<in> set [WriteIssued j]" and lt: "j' div batchSize < k div batchSize"
    then have "k = j" by simp
    with assms(3,4) have "k div batchSize = m" by (intro batch_div) simp_all
    with lt have j': "j' < m * batchSize" by (simp add: earlier_batch)
    with assms(2) have "tasks st ! j' = Fulfilled" "j' < length docs"
      unfolding shape_def by auto
    with assms(1) show "TaskFulfilled j' \<in> set (trace st)" by (simp add: history_def)
  qed
qed

lemma batch_inv_limit:
  assumes "batch_inv docs m c st" "c < length docs" "c < m * batchSize + batchSize"
  shows "batch_inv docs m (Suc c) (limit c st)"
proof -
  from assms(1) have sh: "shape docs (m * batchSize) c st" and hi: "history docs m c st"
    by (simp_all add: batch_inv_def)
  from sh have ac: "m * batchSize \<le> c" and len: "length (tasks st) = length docs"
    by (simp_all add: shape_def)
  have seq: "sequenced (trace st @ [WriteIssued c])"
    using hi sh ac assms(3) by (rule history_issue)
  have "history docs m (Suc c) (limit c st)"
    using hi seq len assms(2)
    by (auto simp: history_def limit_def run_job_def nth_list_update less_Suc_eq)
  with shape_limit [OF sh assms(2)] assms(3) show ?thesis
    by (simp add: batch_inv_def)
qed

lemma batch_inv_fold_limit:
  assumes "batch_inv docs m c st" "c \<le> c'" "c' \<le> length docs" "c' \<le> m * batchSize + batchSize"
  shows "batch_inv docs m c' (fold limit [c..<c'] st)"
  using assms(2,3,4)
proof (induction c')
  case 0
  with assms(1) show ?case by simp
next
  case (Suc c')
  show ?case
  proof (cases "c = Suc c'")
    case True
    with assms(1) show ?thesis by simp
  next
    case False
    with Suc.prems have le: "c \<le> c'" "c' \<le> length docs" "c' \<le> m * batchSize + batchSize"
      "c' < length docs" "c' < m * batchSize + batchSize" by simp_all
    from Suc.IH [OF le(1,2,3)] have "batch_inv docs m c' (fold limit [c..<c'] st)" .
    from batch_inv_limit [OF this le(4,5)] le(1) show ?thesis by simp
  qed
qed

text \<open>The limiter touches nothing but the tasks it is given.\<close>

lemma limit_frame:
  "control (limit c st) = control st" "world (limit c st) = world st"
  "length (tasks (limit c st)) = length (tasks st)"
  "j \<noteq> c \<Longrightarrow> tasks (limit c st) ! j = tasks st ! j"
  "c < length (tasks st) \<Longrightarrow> tasks (limit c st) ! c = InFlight 0 \<or> tasks (limit c st) ! c = Queued"
  "rejections (trace (limit c st)) = rejections (trace st)"
  by (simp_all add: limit_def run_job_def rejections_def)

lemma fold_limit_frame:
  "control (fold limit [c..<c'] st) = control st \<and> world (fold limit [c..<c'] st) = world st \<and>
   length (tasks (fold limit [c..<c'] st)) = length (tasks st) \<and>
   rejections (trace (fold limit [c..<c'] st)) = rejections (trace st) \<and>
   (\<forall>j. \<not> (c \<le> j \<and> j < c') \<longrightarrow> tasks (fold limit [c..<c'] st) ! j = tasks st ! j) \<and>
   (\<forall>j. c \<le> j \<and> j < c' \<and> j < length (tasks st) \<longrightarrow>
      tasks (fold limit [c..<c'] st) ! j = InFlight 0 \<or> tasks (fold limit [c..<c'] st) ! j = Queued)"
proof (induction c')
  case 0
  show ?case by simp
next
  case (Suc c')
  show ?case
  proof (cases "c \<le> c'")
    case False
    then show ?thesis by auto
  next
    case True
    let ?st = "fold limit [c..<c'] st"
    have eq: "fold limit [c..<Suc c'] st = limit c' ?st" using True by simp
    show ?thesis
      unfolding eq using True Suc.IH limit_frame(5) [of c' ?st] limit_frame(4) [of _ c' ?st]
      by (auto simp: limit_frame(1,2,3,6) less_Suc_eq)
  qed
qed

lemma next_job_Nil:
  "queue st = [] \<Longrightarrow> next_job st = st\<lparr>activeCount := activeCount st - 1\<rparr>"
  by (simp add: next_job_def)

lemma next_job_Cons:
  "queue st = q # qs \<Longrightarrow>
   next_job st =
     st\<lparr>tasks := (tasks st)[q := InFlight 0], activeCount := activeCount st - 1 + 1, queue := qs,
        trace := trace st @ [WriteIssued q]\<rparr>"
  by (simp add: next_job_def run_job_def)

text \<open>A suspended task moves to its other suspension point.\<close>

lemma batch_inv_stutter:
  assumes inv: "batch_inv docs m c st" and j: "j < length docs" and susp: "suspended (tasks st ! j)"
    and t: "suspended t"
    and evs: "\<forall>ev\<in>set evs. \<not> milestone ev \<and> (\<forall>k e. ev \<noteq> TaskRejected k e) \<and> (\<forall>k. ev = WriteIssued k \<longrightarrow> k = j)"
  shows "batch_inv docs m c (st\<lparr>tasks := (tasks st)[j := t], trace := trace st @ evs\<rparr>)"
proof -
  from inv have sh: "shape docs (m * batchSize) c st" and hi: "history docs m c st"
    and c: "c \<le> m * batchSize + batchSize"
    by (simp_all add: batch_inv_def)
  from shape_suspended [OF sh j susp] have jr: "m * batchSize \<le> j" "j < c" by simp_all
  from sh have len: "length (tasks st) = length docs" by (simp add: shape_def)
  have act: "active (st\<lparr>tasks := (tasks st)[j := t], trace := trace st @ evs\<rparr>) = active st"
    using j len susp t by (auto simp: active_def nth_list_update)
  have t': "t \<noteq> NotCreated" "t \<noteq> Queued" "t \<noteq> Fulfilled" using t by auto
  have old: "tasks st ! j \<noteq> NotCreated" "tasks st ! j \<noteq> Queued" "tasks st ! j \<noteq> Fulfilled"
    using susp by auto
  have "shape docs (m * batchSize) c (st\<lparr>tasks := (tasks st)[j := t], trace := trace st @ evs\<rparr>)"
  proof -
    from sh obtain q where q: "m * batchSize \<le> q" "q \<le> c" "queue st = [q..<c]"
      "\<forall>j. m * batchSize \<le> j \<and> j < q \<longrightarrow> tasks st ! j \<noteq> NotCreated \<and> tasks st ! j \<noteq> Queued"
      "\<forall>j. q \<le> j \<and> j < c \<longrightarrow> tasks st ! j = Queued"
      "q < c \<longrightarrow> activeCount st = concurrency"
      unfolding shape_def by blast
    have jq: "j < q" using q(5) old(2) jr by (cases "j < q") auto
    have "\<exists>q'. m * batchSize \<le> q' \<and> q' \<le> c \<and> queue st = [q'..<c] \<and>
        (\<forall>k. m * batchSize \<le> k \<and> k < q' \<longrightarrow> (tasks st)[j := t] ! k \<noteq> NotCreated \<and> (tasks st)[j := t] ! k \<noteq> Queued) \<and>
        (\<forall>k. q' \<le> k \<and> k < c \<longrightarrow> (tasks st)[j := t] ! k = Queued) \<and>
        (q' < c \<longrightarrow> activeCount st = concurrency)"
      using q jq t' len j by (intro exI [of _ q]) (auto simp: nth_list_update)
    moreover have "\<forall>k<m * batchSize. (tasks st)[j := t] ! k = Fulfilled"
      using sh jr by (auto simp: shape_def nth_list_update)
    moreover have "\<forall>k. c \<le> k \<and> k < length docs \<longrightarrow> (tasks st)[j := t] ! k = NotCreated"
      using sh jr by (auto simp: shape_def nth_list_update)
    ultimately show ?thesis
      using sh act by (simp add: shape_def)
  qed
  moreover have "history docs m c (st\<lparr>tasks := (tasks st)[j := t], trace := trace st @ evs\<rparr>)"
  proof -
    have "sequenced (trace st @ evs)"
    proof (rule sequenced_append)
      show "sequenced (trace st)" using hi by (simp add: history_def)
      show "\<forall>k j'. WriteIssued k \<in> set evs \<and> j' div batchSize < k div batchSize \<longrightarrow>
          TaskFulfilled j' \<in> set (trace st)"
      proof (intro allI impI, elim conjE)
        fix k j' assume "WriteIssued k \<in> set evs" and lt: "j' div batchSize < k div batchSize"
        with evs have "k = j" by blast
        with jr c have "k div batchSize = m" by (intro batch_div) simp_all
        with lt have j': "j' < m * batchSize" by (simp add: earlier_batch)
        with sh have "tasks st ! j' = Fulfilled" "j' < length docs"
          unfolding shape_def by auto
        with hi show "TaskFulfilled j' \<in> set (trace st)" by (simp add: history_def)
      qed
    qed
    moreover have "filter milestone evs = []" using evs by (auto simp: filter_empty_conv)
    ultimately show ?thesis
      using hi evs jr t' len j by (auto simp: history_def nth_list_update)
  qed
  ultimately show ?thesis using c by (simp add: batch_inv_def)
qed

text \<open>A suspended task settles and the limiter moves on.\<close>

lemma batch_inv_settle:
  assumes inv: "batch_inv docs m c st" and j: "j < length docs" and susp: "suspended (tasks st ! j)"
    and v: "(v = Fulfilled \<and> ev = TaskFulfilled j) \<or> (\<exists>e. v = Rejected e \<and> ev = TaskRejected j e)"
  shows "batch_inv docs m c (next_job (st\<lparr>tasks := (tasks st)[j := v], trace := trace st @ [ev]\<rparr>))"
proof -
  let ?st1 = "st\<lparr>tasks := (tasks st)[j := v], trace := trace st @ [ev]\<rparr>"
  from inv have sh: "shape docs (m * batchSize) c st" and hi: "history docs m c st"
    and c: "c \<le> m * batchSize + batchSize"
    by (simp_all add: batch_inv_def)
  from shape_suspended [OF sh j susp]
  have jr: "m * batchSize \<le> j" "j < c" and pos: "0 < activeCount st" by simp_all
  from sh obtain q where len: "length (tasks st) = length docs"
    and below: "\<forall>k<m * batchSize. tasks st ! k = Fulfilled"
    and fresh: "\<forall>k. c \<le> k \<and> k < length docs \<longrightarrow> tasks st ! k = NotCreated"
    and q: "m * batchSize \<le> q" "q \<le> c" "queue st = [q..<c]" "c \<le> length docs"
    and started: "\<forall>k. m * batchSize \<le> k \<and> k < q \<longrightarrow> tasks st ! k \<noteq> NotCreated \<and> tasks st ! k \<noteq> Queued"
    and queued: "\<forall>k. q \<le> k \<and> k < c \<longrightarrow> tasks st ! k = Queued"
    and full: "q < c \<longrightarrow> activeCount st = concurrency"
    and le: "activeCount st \<le> concurrency"
    and cnt: "activeCount st = card (active st)"
    unfolding shape_def by blast
  have jq: "j < q" using queued susp jr by (cases "j < q") auto
  have v': "\<not> suspended v" "v \<noteq> NotCreated" "v \<noteq> Queued" using v by auto
  have act1: "active ?st1 = active st - {j}"
    using j len v' by (auto simp: active_def nth_list_update)
  have jact: "j \<in> active st" using j len susp by (simp add: active_def)
  have seq1: "sequenced (trace st @ [ev])"
    using hi v by (intro sequenced_append) (auto simp: history_def)
  have seqq: "sequenced ((trace st @ [ev]) @ [WriteIssued q])" if "q < c"
  proof (rule sequenced_append [OF seq1])
    show "\<forall>k j'. WriteIssued k \<in> set [WriteIssued q] \<and> j' div batchSize < k div batchSize \<longrightarrow>
        TaskFulfilled j' \<in> set (trace st @ [ev])"
    proof (intro allI impI, elim conjE)
      fix k j' assume "WriteIssued k \<in> set [WriteIssued q]" and lt: "j' div batchSize < k div batchSize"
      then have "k = q" by simp
      with q that c have "k div batchSize = m" by (intro batch_div) simp_all
      with lt have j': "j' < m * batchSize" by (simp add: earlier_batch)
      with below q have "tasks st ! j' = Fulfilled" "j' < length docs" by auto
      with hi show "TaskFulfilled j' \<in> set (trace st @ [ev])" by (simp add: history_def)
    qed
  qed
  show ?thesis
  proof (cases "q < c")
    case False
    then have qc: "q = c" using q by simp
    then have nj: "next_job ?st1 = ?st1\<lparr>activeCount := activeCount st - 1\<rparr>"
      using q by (simp add: next_job_Nil)
    have "shape docs (m * batchSize) c (next_job ?st1)"
      unfolding nj shape_def
    proof (intro conjI)
      show "\<exists>q'. m * batchSize \<le> q' \<and> q' \<le> c \<and> queue (?st1\<lparr>activeCount := activeCount st - 1\<rparr>) = [q'..<c] \<and>
          (\<forall>k. m * batchSize \<le> k \<and> k < q' \<longrightarrow>
             tasks (?st1\<lparr>activeCount := activeCount st - 1\<rparr>) ! k \<noteq> NotCreated \<and>
             tasks (?st1\<lparr>activeCount := activeCount st - 1\<rparr>) ! k \<noteq> Queued) \<and>
          (\<forall>k. q' \<le> k \<and> k < c \<longrightarrow> tasks (?st1\<lparr>activeCount := activeCount st - 1\<rparr>) ! k = Queued) \<and>
          (q' < c \<longrightarrow> activeCount (?st1\<lparr>activeCount := activeCount st - 1\<rparr>) = concurrency)"
        using q qc started v' len j by (intro exI [of _ q]) (auto simp: nth_list_update)
      show "activeCount (?st1\<lparr>activeCount := activeCount st - 1\<rparr>) =
          card (active (?st1\<lparr>activeCount := activeCount st - 1\<rparr>))"
        using act1 jact cnt finite_active [of st] by (simp add: active_def)
    qed (use len q jr below fresh le in \<open>auto simp: nth_list_update\<close>)
    moreover have "history docs m c (next_job ?st1)"
      unfolding nj using hi seq1 v jr len j by (auto simp: history_def nth_list_update)
    ultimately show ?thesis using c by (simp add: batch_inv_def)
  next
    case True
    then have qu: "queue ?st1 = q # [Suc q..<c]" using q by (simp add: upt_conv_Cons)
    have nj: "next_job ?st1 =
        st\<lparr>tasks := (tasks st)[j := v, q := InFlight 0], activeCount := activeCount st - 1 + 1,
           queue := [Suc q..<c], trace := (trace st @ [ev]) @ [WriteIssued q]\<rparr>"
      unfolding next_job_Cons [OF qu] by simp
    have qna: "q \<notin> active st" using queued True by (simp add: active_def)
    have act2: "active (next_job ?st1) = insert q (active st - {j})"
      unfolding nj using j len v' True q jq by (auto simp: active_def nth_list_update)
    have "shape docs (m * batchSize) c (next_job ?st1)"
      unfolding shape_def
    proof (intro conjI)
      show "\<exists>q'. m * batchSize \<le> q' \<and> q' \<le> c \<and> queue (next_job ?st1) = [q'..<c] \<and>
          (\<forall>k. m * batchSize \<le> k \<and> k < q' \<longrightarrow>
             tasks (next_job ?st1) ! k \<noteq> NotCreated \<and> tasks (next_job ?st1) ! k \<noteq> Queued) \<and>
          (\<forall>k. q' \<le> k \<and> k < c \<longrightarrow> tasks (next_job ?st1) ! k = Queued) \<and>
          (q' < c \<longrightarrow> activeCount (next_job ?st1) = concurrency)"
        using q True started queued v' len j jq full pos
        by (intro exI [of _ "Suc q"]) (auto simp: nj nth_list_update less_Suc_eq)
      show "activeCount (next_job ?st1) = card (active (next_job ?st1))"
        unfolding act2 using qna jact cnt pos finite_active [of st] by (simp add: nj)
    qed (use len q jr jq True below fresh le pos full in \<open>auto simp: nj nth_list_update\<close>)
    moreover have "history docs m c (next_job ?st1)"
      using hi seqq [OF True] v jr q True len j by (auto simp: nj history_def nth_list_update)
    ultimately show ?thesis using c by (simp add: batch_inv_def)
  qed
qed

lemma next_job_frame:
  "control (next_job st) = control st" "world (next_job st) = world st"
  "length (tasks (next_job st)) = length (tasks st)"
  "rejections (trace (next_job st)) = rejections (trace st)"
  by (cases "queue st"; simp add: next_job_def run_job_def rejections_def)+

lemma next_job_Rejected:
  "tasks (next_job st) ! k = Rejected e \<Longrightarrow> tasks st ! k = Rejected e"
proof (cases "queue st")
  case Nil
  then show "tasks (next_job st) ! k = Rejected e \<Longrightarrow> tasks st ! k = Rejected e"
    by (simp add: next_job_Nil)
next
  case (Cons q qs)
  show "tasks (next_job st) ! k = Rejected e \<Longrightarrow> tasks st ! k = Rejected e"
    unfolding next_job_Cons [OF Cons]
    by (cases "k = q"; cases "q < length (tasks st)") (simp_all add: list_update_beyond)
qed

lemma upper_bounds:
  assumes "i < length docs"
  shows "i < upper docs i" "upper docs i \<le> length docs" "upper docs i \<le> i + batchSize"
    "upper docs i = min (i + batchSize) (length docs)"
  using assms batchSize_pos by (auto simp: upper_eq)

lemma active_empty:
  assumes "\<forall>j<length (tasks st). tasks st ! j = Fulfilled \<or> tasks st ! j = NotCreated"
  shows "active st = {}"
  using assms by (auto simp: active_def)

text \<open>The loop test with everything before \<open>i\<close> fulfilled and nothing else created.\<close>

lemma iteration_invariant:
  assumes len: "length (tasks st) = length docs"
    and below: "\<forall>j. j < i \<and> j < length docs \<longrightarrow> tasks st ! j = Fulfilled"
    and fresh: "\<forall>j. i \<le> j \<and> j < length docs \<longrightarrow> tasks st ! j = NotCreated"
    and idle: "queue st = []" "activeCount st = 0"
    and i: "i = m * batchSize"
    and seq: "sequenced (trace st)"
    and ful: "\<forall>j<length docs. tasks st ! j = Fulfilled \<longrightarrow> TaskFulfilled j \<in> set (trace st)"
    and iss: "\<forall>j. WriteIssued j \<in> set (trace st) \<longrightarrow> j < i \<and> j < length docs"
    and rej: "rejections (trace st) = []"
    and mil: "filter milestone (trace st) = reported docs m"
    and bat: "\<forall>k<m. k * batchSize < length docs"
  shows "invariant docs (iteration docs i st)"
proof (cases "i < length docs")
  case False
  then have it: "iteration docs i st = st\<lparr>control := Completed\<rparr>" by (simp add: iteration_def)
  have "\<forall>j<length docs. tasks st ! j = Fulfilled" using below False by auto
  moreover have "\<exists>m'. length docs \<le> m' * batchSize \<and> (\<forall>k<m'. k * batchSize < length docs) \<and>
      filter milestone (trace st) = reported docs m'"
    using False i mil bat by (intro exI [of _ m]) simp
  ultimately show ?thesis
    unfolding it using len seq rej iss by (simp add: invariant_def)
next
  case True
  note ub = upper_bounds [OF True]
  let ?st0 = "st\<lparr>control := Awaiting i, trace := trace st @ [BatchSliced i (slice docs i (i + batchSize))]\<rparr>"
  let ?st' = "fold limit [i..<upper docs i] ?st0"
  have it: "iteration docs i st = ?st'"
    using True by (simp add: iteration_def upper_def Let_def)
  have "tasks st ! j = Fulfilled \<or> tasks st ! j = NotCreated" if "j < length docs" for j
    using below fresh that by (cases "j < i") auto
  then have act0: "active ?st0 = {}"
    using len by (intro active_empty) simp
  have sh0: "shape docs (m * batchSize) i ?st0"
    unfolding shape_def using len True below fresh idle i act0
    by (auto intro!: exI [of _ i])
  have no_rej: "\<forall>j e. TaskRejected j e \<notin> set (trace st)"
    using rej by (simp add: rejections_empty_iff)
  have hi0: "history docs m i ?st0"
    unfolding history_def using seq ful iss no_rej mil i
    by (auto intro!: sequenced_append)
  have b0: "batch_inv docs m i ?st0"
    using sh0 hi0 i by (simp add: batch_inv_def)
  have b: "batch_inv docs m (upper docs i) ?st'"
    using b0 ub i by (intro batch_inv_fold_limit) simp_all
  note fr = fold_limit_frame [of i "upper docs i" ?st0]
  have ctl: "control ?st' = Awaiting i" using fr by simp
  have rej': "rejections (trace ?st') = []" using fr rej by (simp add: rejections_append rejections_def)
  have tasks': "tasks ?st' ! j = InFlight 0 \<or> tasks ?st' ! j = Queued"
    if "i \<le> j" "j < upper docs i" for j
    using fr that ub len by auto
  have old: "tasks ?st' ! j = tasks st ! j" if "\<not> (i \<le> j \<and> j < upper docs i)" for j
    using fr that by auto
  have no_rejected: "\<forall>j<length docs. \<forall>e. tasks ?st' ! j \<noteq> Rejected e"
  proof (intro allI impI)
    fix j e assume j: "j < length docs"
    show "tasks ?st' ! j \<noteq> Rejected e"
    proof (cases "i \<le> j \<and> j < upper docs i")
      case True
      with tasks' [of j] show ?thesis by auto
    next
      case False
      with old [of j] below fresh j show ?thesis by (cases "j < i") auto
    qed
  qed
  have "\<exists>j. i \<le> j \<and> j < upper docs i \<and> tasks ?st' ! j \<noteq> Fulfilled"
    using tasks' [of i] ub by (intro exI [of _ i]) auto
  with b ctl rej' no_rejected True i show ?thesis
    unfolding it invariant_def by (auto intro!: exI [of _ m])
qed

text \<open>The call establishes the invariant.\<close>

lemma invariant_initial: "invariant docs (initializeVectorStore docs w)"
  unfolding initializeVectorStore_def
  by (rule iteration_invariant [where m = 0])
     (simp_all add: sequenced_Nil rejections_def reported_def)

lemma invariant_suspended:
  assumes "invariant docs st" "j < length docs" "suspended (tasks st ! j)"
  obtains m where "m * batchSize < length docs"
    "batch_inv docs m (upper docs (m * batchSize)) st"
    "control st = Awaiting (m * batchSize) \<or> (\<exists>err. control st = Failed err)"
proof (cases "control st")
  case (Awaiting i)
  with assms(1) that show ?thesis by (auto simp: invariant_def)
next
  case Completed
  with assms have False by (auto simp: invariant_def)
  then show ?thesis ..
next
  case (Failed err)
  with assms(1) that show ?thesis by (auto simp: invariant_def)
qed

lemma batch_inv_cong:
  assumes "tasks st' = tasks st" "queue st' = queue st" "activeCount st' = activeCount st"
    "trace st' = trace st"
  shows "batch_inv docs m c st' = batch_inv docs m c st"
  using assms by (simp add: batch_inv_def shape_def history_def active_def)

lemma invariant_stutter:
  assumes inv: "invariant docs st" and j: "j < length docs" and susp: "suspended (tasks st ! j)"
    and t: "suspended t"
    and evs: "\<forall>ev\<in>set evs. \<not> milestone ev \<and> (\<forall>k e. ev \<noteq> TaskRejected k e) \<and> (\<forall>k. ev = WriteIssued k \<longrightarrow> k = j)"
  shows "invariant docs (st\<lparr>world := w, tasks := (tasks st)[j := t], trace := trace st @ evs\<rparr>)"
proof -
  let ?st' = "st\<lparr>world := w, tasks := (tasks st)[j := t], trace := trace st @ evs\<rparr>"
  from inv j susp obtain m where m: "m * batchSize < length docs"
    and b: "batch_inv docs m (upper docs (m * batchSize)) st"
    and ctl: "control st = Awaiting (m * batchSize) \<or> (\<exists>err. control st = Failed err)"
    by (rule invariant_suspended)
  from b have len: "length (tasks st) = length docs" by (simp add: batch_inv_def shape_def)
  have same: "batch_inv docs k c ?st' =
      batch_inv docs k c (st\<lparr>tasks := (tasks st)[j := t], trace := trace st @ evs\<rparr>)" for k c
    by (rule batch_inv_cong) simp_all
  have b': "batch_inv docs m (upper docs (m * batchSize)) ?st'"
    using batch_inv_stutter [OF b j susp t evs] by (simp only: same)
  have rej: "rejections (trace ?st') = rejections (trace st)"
  proof -
    have "\<forall>k e. TaskRejected k e \<notin> set evs" using evs by blast
    then have "rejections evs = []" by (simp add: rejections_empty_iff)
    then show ?thesis by (simp add: rejections_append)
  qed
  have t': "t \<noteq> Fulfilled" "\<And>e. t \<noteq> Rejected e" using t by auto
  from ctl show ?thesis
  proof
    assume a: "control st = Awaiting (m * batchSize)"
    with inv obtain j0 where r0: "rejections (trace st) = []"
      and nr: "\<forall>k<length docs. \<forall>e. tasks st ! k \<noteq> Rejected e"
      and j0: "m * batchSize \<le> j0" "j0 < upper docs (m * batchSize)" "tasks st ! j0 \<noteq> Fulfilled"
      by (auto simp: invariant_def)
    have "tasks ?st' ! j0 \<noteq> Fulfilled"
      using j0 t' len j by (simp add: nth_list_update)
    with j0 have ex: "\<exists>k. m * batchSize \<le> k \<and> k < upper docs (m * batchSize) \<and> tasks ?st' ! k \<noteq> Fulfilled"
      by blast
    have nr': "\<forall>k<length docs. \<forall>e. tasks ?st' ! k \<noteq> Rejected e"
      using nr t' len j by (simp add: nth_list_update)
    have r': "rejections (trace ?st') = []" using rej r0 by simp
    have "\<exists>m'. m * batchSize = m' * batchSize \<and> m * batchSize < length docs \<and>
        batch_inv docs m' (upper docs (m * batchSize)) ?st' \<and> rejections (trace ?st') = [] \<and>
        (\<forall>k<length docs. \<forall>e. tasks ?st' ! k \<noteq> Rejected e) \<and>
        (\<exists>k. m * batchSize \<le> k \<and> k < upper docs (m * batchSize) \<and> tasks ?st' ! k \<noteq> Fulfilled)"
      using b' r' nr' ex m by blast
    then show ?thesis using a by (simp add: invariant_def)
  next
    assume "\<exists>err. control st = Failed err"
    then obtain err where a: "control st = Failed err" ..
    with inv obtain m' where m': "m' * batchSize < length docs"
      "batch_inv docs m' (upper docs (m' * batchSize)) st"
      "rejections (trace st) \<noteq> []" "err = hd (rejections (trace st))"
      by (auto simp: invariant_def)
    have "batch_inv docs m' (upper docs (m' * batchSize)) ?st'"
      using batch_inv_stutter [OF m'(2) j susp t evs] by (simp only: same)
    with a m' rej show ?thesis
      unfolding invariant_def by (auto intro!: exI [of _ m'])
  qed
qed

lemma invariant_reject:
  assumes inv: "invariant docs st" and j: "j < length docs" and susp: "suspended (tasks st ! j)"
  shows "invariant docs (reject j err st)"
proof -
  let ?st1 = "st\<lparr>tasks := (tasks st)[j := Rejected err], trace := trace st @ [TaskRejected j err]\<rparr>"
  let ?st' = "next_job ?st1"
  have rej: "rejections (trace ?st') = rejections (trace st) @ [err]"
    by (simp add: next_job_frame rejections_append) (simp add: rejections_def)
  have ctl': "control ?st' = control st" by (simp add: next_job_frame)
  show ?thesis
  proof (cases "control st")
    case Completed
    with inv j susp show ?thesis by (auto simp: invariant_def)
  next
    case (Awaiting i)
    with inv obtain m where m: "i = m * batchSize" "i < length docs"
      "batch_inv docs m (upper docs i) st" "rejections (trace st) = []"
      by (auto simp: invariant_def)
    have b': "batch_inv docs m (upper docs i) ?st'"
      using m(3) j susp by (rule batch_inv_settle) simp
    have r: "reject j err st = ?st'\<lparr>control := Failed err\<rparr>"
      using Awaiting ctl' by (simp add: reject_def Let_def)
    have "batch_inv docs m (upper docs i) (?st'\<lparr>control := Failed err\<rparr>)"
      using b' by (simp add: batch_inv_def)
    then show ?thesis
      unfolding r invariant_def using m rej by (auto intro!: exI [of _ m])
  next
    case (Failed err0)
    with inv obtain m where m: "m * batchSize < length docs"
      "batch_inv docs m (upper docs (m * batchSize)) st"
      "rejections (trace st) \<noteq> []" "err0 = hd (rejections (trace st))"
      by (auto simp: invariant_def)
    have b': "batch_inv docs m (upper docs (m * batchSize)) ?st'"
      using m(2) j susp by (rule batch_inv_settle) simp
    have r: "reject j err st = ?st'"
      using Failed ctl' by (simp add: reject_def Let_def)
    show ?thesis
      unfolding r invariant_def using m b' rej Failed ctl' by (auto intro!: exI [of _ m])
  qed
qed

lemma invariant_fulfil:
  assumes inv: "invariant docs st" and j: "j < length docs" and susp: "suspended (tasks st ! j)"
  shows "invariant docs (fulfil docs j st)"
proof -
  let ?st1 = "st\<lparr>tasks := (tasks st)[j := Fulfilled], trace := trace st @ [TaskFulfilled j]\<rparr>"
  let ?st' = "next_job ?st1"
  have rej: "rejections (trace ?st') = rejections (trace st)"
    by (simp add: next_job_frame rejections_append) (simp add: rejections_def)
  have ctl': "control ?st' = control st" by (simp add: next_job_frame)
  show ?thesis
  proof (cases "control st")
    case Completed
    with inv j susp show ?thesis by (auto simp: invariant_def)
  next
    case (Failed err0)
    with inv obtain m where m: "m * batchSize < length docs"
      "batch_inv docs m (upper docs (m * batchSize)) st"
      "rejections (trace st) \<noteq> []" "err0 = hd (rejections (trace st))"
      by (auto simp: invariant_def)
    have b': "batch_inv docs m (upper docs (m * batchSize)) ?st'"
      using m(2) j susp by (rule batch_inv_settle) simp
    have r: "fulfil docs j st = ?st'"
      using Failed ctl' by (simp add: fulfil_def Let_def)
    show ?thesis
      unfolding r invariant_def using m b' rej Failed ctl' by (auto intro!: exI [of _ m])
  next
    case (Awaiting i)
    with inv obtain m where m: "i = m * batchSize" "i < length docs"
      and b: "batch_inv docs m (upper docs i) st" and r0: "rejections (trace st) = []"
      and nr: "\<forall>k<length docs. \<forall>e. tasks st ! k \<noteq> Rejected e"
      by (auto simp: invariant_def)
    note ub = upper_bounds [OF m(2)]
    have b': "batch_inv docs m (upper docs i) ?st'"
      using b j susp by (rule batch_inv_settle) simp
    from b have len: "length (tasks st) = length docs" by (simp add: batch_inv_def shape_def)
    have len': "length (tasks ?st') = length docs" using len by (simp add: next_job_frame)
    have nr': "\<forall>k<length docs. \<forall>e. tasks ?st' ! k \<noteq> Rejected e"
    proof (intro allI impI notI)
      fix k e assume k: "k < length docs" and r: "tasks ?st' ! k = Rejected e"
      from r have "tasks ?st1 ! k = Rejected e" by (rule next_job_Rejected)
      with nr k len j show False by (auto simp: nth_list_update split: if_splits)
    qed
    show ?thesis
    proof (cases "batch_fulfilled docs i ?st'")
      case False
      then have r: "fulfil docs j st = ?st'"
        using Awaiting ctl' by (simp add: fulfil_def Let_def)
      from False have ex: "\<exists>k. i \<le> k \<and> k < upper docs i \<and> tasks ?st' ! k \<noteq> Fulfilled"
        by (auto simp: batch_fulfilled_def upper_def list_all_iff)
      have r': "rejections (trace ?st') = []" using rej r0 by simp
      have "\<exists>m'. i = m' * batchSize \<and> i < length docs \<and>
          batch_inv docs m' (upper docs i) ?st' \<and> rejections (trace ?st') = [] \<and>
          (\<forall>k<length docs. \<forall>e. tasks ?st' ! k \<noteq> Rejected e) \<and>
          (\<exists>k. i \<le> k \<and> k < upper docs i \<and> tasks ?st' ! k \<noteq> Fulfilled)"
        using b' r' nr' ex m by blast
      then show ?thesis
        unfolding r using Awaiting ctl' by (simp add: invariant_def)
    next
      case True
      let ?st2 = "?st'\<lparr>trace := trace ?st' @ [Progress (upper docs i) (length docs)]\<rparr>"
      have r: "fulfil docs j st = iteration docs (i + batchSize) ?st2"
        using True Awaiting ctl' by (simp add: fulfil_def Let_def upper_def)
      from True have bf: "\<forall>k. i \<le> k \<and> k < upper docs i \<longrightarrow> tasks ?st' ! k = Fulfilled"
        by (auto simp: batch_fulfilled_def upper_def list_all_iff)
      from b' have sh: "shape docs i (upper docs i) ?st'" and hi: "history docs m (upper docs i) ?st'"
        using m(1) by (simp_all add: batch_inv_def)
      from sh obtain q where q: "i \<le> q" "q \<le> upper docs i" "queue ?st' = [q..<upper docs i]"
        "\<forall>k. q \<le> k \<and> k < upper docs i \<longrightarrow> tasks ?st' ! k = Queued"
        and below: "\<forall>k<i. tasks ?st' ! k = Fulfilled"
        and fresh: "\<forall>k. upper docs i \<le> k \<and> k < length docs \<longrightarrow> tasks ?st' ! k = NotCreated"
        and cnt: "activeCount ?st' = card (active ?st')"
        unfolding shape_def by blast
      have "q = upper docs i"
      proof (rule ccontr)
        assume "q \<noteq> upper docs i"
        with q have "q < upper docs i" by simp
        with q bf have "tasks ?st' ! q = Queued" "tasks ?st' ! q = Fulfilled" by auto
        then show False by simp
      qed
      then have idle: "queue ?st' = []" using q by simp
      have all: "tasks ?st' ! k = Fulfilled \<or> tasks ?st' ! k = NotCreated" if "k < length docs" for k
        using below bf fresh that by (cases "k < i"; cases "k < upper docs i") auto
      then have "active ?st' = {}" using len' by (intro active_empty) simp
      with cnt have idle': "activeCount ?st' = 0" by simp
      have "invariant docs (iteration docs (i + batchSize) ?st2)"
      proof (rule iteration_invariant [where m = "Suc m"])
        show "length (tasks ?st2) = length docs" using len' by simp
        show "\<forall>k. k < i + batchSize \<and> k < length docs \<longrightarrow> tasks ?st2 ! k = Fulfilled"
          using below bf ub by (auto simp: not_less) (metis leI)
        show "\<forall>k. i + batchSize \<le> k \<and> k < length docs \<longrightarrow> tasks ?st2 ! k = NotCreated"
          using fresh ub by auto
        show "queue ?st2 = []" using idle by simp
        show "activeCount ?st2 = 0" using idle' by simp
        show "i + batchSize = Suc m * batchSize" using m(1) by simp
        show "sequenced (trace ?st2)"
          using hi by (auto simp: history_def intro!: sequenced_append)
        show "\<forall>k<length docs. tasks ?st2 ! k = Fulfilled \<longrightarrow> TaskFulfilled k \<in> set (trace ?st2)"
          using hi by (auto simp: history_def)
        show "\<forall>k. WriteIssued k \<in> set (trace ?st2) \<longrightarrow> k < i + batchSize \<and> k < length docs"
          using hi ub by (auto simp: history_def)
        show "rejections (trace ?st2) = []"
          using rej r0 by (simp add: rejections_append) (simp add: rejections_def)
        show "filter milestone (trace ?st2) = reported docs (Suc m)"
          using hi m(1) by (simp add: history_def reported_Suc report_def)
        show "\<forall>k<Suc m. k * batchSize < length docs"
        proof (intro allI impI)
          fix k assume "k < Suc m"
          then have "k \<le> m" by simp
          then have "k * batchSize \<le> m * batchSize" by (rule mult_le_mono1)
          with m show "k * batchSize < length docs" by linarith
        qed
      qed
      then show ?thesis by (simp only: r)
    qed
  qed
qed

lemma advance_invariant:
  assumes inv: "invariant docs st" and adv: "advance write docs j st = Some st'"
  shows "invariant docs st'"
proof -
  from adv have j: "j < length (tasks st)" "j < length docs"
    by (auto simp: advance_def split: if_splits)
  show ?thesis
  proof (cases "tasks st ! j")
    case (InFlight retries)
    then have susp: "suspended (tasks st ! j)" by simp
    obtain res w where wr: "write (docs ! j) (world st) = (res, w)" by force
    show ?thesis
    proof (cases res)
      case (Inr v)
      let ?st0 = "st\<lparr>world := w, trace := trace st @ [WriteSucceeded j]\<rparr>"
      have st': "st' = fulfil docs j ?st0"
        using adv j InFlight wr Inr by (simp add: advance_def)
      have "invariant docs (st\<lparr>world := w, tasks := (tasks st)[j := tasks st ! j],
          trace := trace st @ [WriteSucceeded j]\<rparr>)"
        using inv j(2) susp susp by (rule invariant_stutter) simp
      then have "invariant docs ?st0" by simp
      then show ?thesis unfolding st' using j(2) susp by (intro invariant_fulfil) simp_all
    next
      case (Inl err)
      show ?thesis
      proof (cases "rat_of_nat (retries + 1) = defaultMaxRetries")
        case True
        let ?st0 = "st\<lparr>world := w, trace := trace st @ [WriteFailed j err]\<rparr>"
        have st': "st' = reject j err ?st0"
          using adv j InFlight wr Inl True by (simp add: advance_def)
        have "invariant docs (st\<lparr>world := w, tasks := (tasks st)[j := tasks st ! j],
            trace := trace st @ [WriteFailed j err]\<rparr>)"
          using inv j(2) susp susp by (rule invariant_stutter) simp
        then have "invariant docs ?st0" by simp
        then show ?thesis unfolding st' using j(2) susp by (intro invariant_reject) simp_all
      next
        case False
        have st': "st' = st\<lparr>world := w, tasks := (tasks st)[j := Sleeping (retries + 1)],
            trace := trace st @
              [WriteFailed j err,
               RetryLogged j (retries + 1) (defaultInitialDelay * 2 ^ (retries + 1)),
               TimerStarted j (defaultInitialDelay * 2 ^ (retries + 1))]\<rparr>"
          using adv j InFlight wr Inl False by (simp add: advance_def)
        show ?thesis
          unfolding st' using inv j(2) susp by (rule invariant_stutter) simp_all
      qed
    qed
  next
    case (Sleeping retries)
    then have susp: "suspended (tasks st ! j)" by simp
    show ?thesis
    proof (cases "rat_of_nat retries < defaultMaxRetries")
      case True
      have st': "st' = st\<lparr>world := world st, tasks := (tasks st)[j := InFlight retries],
          trace := trace st @ [TimerFired j, WriteIssued j]\<rparr>"
        using adv j Sleeping True by (simp add: advance_def)
      show ?thesis
        unfolding st' using inv j(2) susp by (rule invariant_stutter) simp_all
    next
      case False
      let ?st0 = "st\<lparr>trace := trace st @ [TimerFired j]\<rparr>"
      have st': "st' = fulfil docs j ?st0"
        using adv j Sleeping False by (simp add: advance_def)
      have "invariant docs (st\<lparr>world := world st, tasks := (tasks st)[j := tasks st ! j],
          trace := trace st @ [TimerFired j]\<rparr>)"
        using inv j(2) susp susp by (rule invariant_stutter) simp
      then have "invariant docs ?st0" by simp
      then show ?thesis unfolding st' using j(2) susp by (intro invariant_fulfil) simp_all
    qed
  qed (use adv j in \<open>simp_all add: advance_def\<close>)
qed

lemma run_invariant:
  "invariant docs st \<Longrightarrow> run write docs schedule st = Some st' \<Longrightarrow> invariant docs st'"
proof (induction schedule arbitrary: st)
  case Nil
  then show ?case by simp
next
  case (Cons j schedule)
  from Cons.prems(2) obtain st1 where a: "advance write docs j st = Some st1"
    and r: "run write docs schedule st1 = Some st'"
    by (auto split: option.splits)
  from Cons.IH [OF advance_invariant [OF Cons.prems(1) a] r] show ?case .
qed

lemma reachable_invariant:
  "run write docs schedule (initializeVectorStore docs w) = Some st \<Longrightarrow> invariant docs st"
  using invariant_initial by (rule run_invariant)

text \<open>While the function awaits a batch, some task of the batch has a pending event.\<close>

lemma awaiting_not_quiescent:
  assumes "invariant docs st" "control st = Awaiting i"
  shows "\<not> quiescent st"
proof -
  from assms obtain m j0 where m: "i = m * batchSize" "i < length docs"
    and b: "batch_inv docs m (upper docs i) st"
    and nr: "\<forall>k<length docs. \<forall>e. tasks st ! k \<noteq> Rejected e"
    and j0: "i \<le> j0" "j0 < upper docs i" "tasks st ! j0 \<noteq> Fulfilled"
    by (auto simp: invariant_def)
  from b m obtain q where len: "length (tasks st) = length docs"
    and q: "i \<le> q" "q \<le> upper docs i"
    and started: "\<forall>k. i \<le> k \<and> k < q \<longrightarrow> tasks st ! k \<noteq> NotCreated \<and> tasks st ! k \<noteq> Queued"
    and full: "q < upper docs i \<longrightarrow> activeCount st = concurrency"
    and cnt: "activeCount st = card (active st)"
    unfolding batch_inv_def shape_def by blast
  note ub = upper_bounds [OF m(2)]
  have "\<exists>k<length (tasks st). suspended (tasks st ! k)"
  proof (cases "j0 < q")
    case True
    with started j0 have "tasks st ! j0 \<noteq> NotCreated" "tasks st ! j0 \<noteq> Queued" by auto
    moreover from nr j0 ub have "\<And>e. tasks st ! j0 \<noteq> Rejected e" by simp
    ultimately have "suspended (tasks st ! j0)"
      using j0(3) by (cases "tasks st ! j0") auto
    with j0 ub len show ?thesis by (intro exI [of _ j0]) simp
  next
    case False
    with j0 full have "activeCount st = concurrency" by simp
    with cnt concurrency_pos have "active st \<noteq> {}" by auto
    then show ?thesis by (auto simp: active_def)
  qed
  then show ?thesis
    by (auto simp: quiescent_def list_ex_iff intro: nth_mem)
qed

lemma batches_filter: "batches (filter milestone tr) = batches tr"
proof (induction tr)
  case Nil
  show ?case by simp
next
  case (Cons ev tr)
  then show ?case by (cases ev) (simp_all add: batches_def)
qed

lemma progress_filter: "progress (filter milestone tr) = progress tr"
proof (induction tr)
  case Nil
  show ?case by simp
next
  case (Cons ev tr)
  then show ?case by (cases ev) (simp_all add: progress_def)
qed

lemma length_progress_reported: "length (progress (reported docs m)) = m"
  by (induction m) (simp_all add: reported_Suc report_def progress_def, simp add: reported_def)

lemma three_slices:
  assumes "length docs = 120"
  shows "slice docs 0 50 @ slice docs 50 100 @ slice docs 100 150 = docs"
    "length (slice docs 0 50) = 50" "length (slice docs 50 100) = 50" "length (slice docs 100 150) = 20"
proof -
  have "take 50 docs @ take 50 (drop 50 docs) @ drop 100 docs = docs"
    using append_take_drop_id [of 50 docs] append_take_drop_id [of 50 "drop 50 docs"]
    by simp
  then show "slice docs 0 50 @ slice docs 50 100 @ slice docs 100 150 = docs"
    using assms by (simp add: slice_def)
  show "length (slice docs 0 50) = 50" "length (slice docs 50 100) = 50" "length (slice docs 100 150) = 20"
    using assms by (simp_all add: slice_def)
qed

lemma reported_three:
  assumes "length docs = 120"
  shows "reported docs 3 =
           [BatchSliced 0 (slice docs 0 50), Progress 50 120,
            BatchSliced 50 (slice docs 50 100), Progress 100 120,
            BatchSliced 100 (slice docs 100 150), Progress 120 120]"
proof -
  have up: "[0..<3] = [0, 1, 2]" by (simp add: upt_conv_Cons)
  have u: "upper docs 0 = 50" "upper docs 50 = 100" "upper docs 100 = 120"
    using assms by (simp_all add: upper_eq batchSize_def)
  show ?thesis
    unfolding reported_def up by (simp add: report_def batchSize_def u assms)
qed

lemma remaining_update:
  "j < length (tasks st) \<Longrightarrow>
   remaining (st\<lparr>tasks := (tasks st)[j := v]\<rparr>) = remaining st + budget v - budget (tasks st ! j)"
  by (simp add: remaining_def map_update sum_list_update)

lemma budget_le_remaining: "j < length (tasks st) \<Longrightarrow> budget (tasks st ! j) \<le> remaining st"
  unfolding remaining_def by (intro member_le_sum_list) auto

lemma remaining_cong: "tasks st' = tasks st \<Longrightarrow> remaining st' = remaining st"
  by (simp add: remaining_def)

lemma bounded_retries_cong: "tasks st' = tasks st \<Longrightarrow> bounded_retries st' = bounded_retries st"
  by (simp add: bounded_retries_def)

lemma bounded_retries_update:
  assumes "bounded_retries st" and "retries_ok v"
  shows "bounded_retries (st\<lparr>tasks := (tasks st)[j := v]\<rparr>)"
  using assms set_update_subset_insert [of "tasks st" j v]
  by (auto simp: bounded_retries_def list_all_iff)

text \<open>Handing a new task to the limiter, or starting a queued one, uses up nothing.\<close>

lemma limit_budget:
  assumes "c < length (tasks st)" "tasks st ! c = NotCreated"
  shows "remaining (limit c st) = remaining st"
    and "bounded_retries st \<Longrightarrow> bounded_retries (limit c st)"
proof -
  let ?a = "st\<lparr>tasks := (tasks st)[c := InFlight 0]\<rparr>"
  let ?b = "st\<lparr>tasks := (tasks st)[c := Queued]\<rparr>"
  have t: "tasks (limit c st) = tasks ?a \<or> tasks (limit c st) = tasks ?b"
    by (simp add: limit_def run_job_def)
  have "remaining ?a = remaining st" "remaining ?b = remaining st"
    using assms by (simp_all add: remaining_update)
  with t show "remaining (limit c st) = remaining st"
    by (auto simp: remaining_def)
  assume b: "bounded_retries st"
  have "bounded_retries ?a" "bounded_retries ?b"
    using b by (simp_all add: bounded_retries_update)
  with t show "bounded_retries (limit c st)"
    by (auto simp: bounded_retries_def)
qed

lemma fold_limit_budget:
  assumes "c' \<le> length (tasks st)" "\<forall>j. c \<le> j \<and> j < c' \<longrightarrow> tasks st ! j = NotCreated"
  shows "remaining (fold limit [c..<c'] st) = remaining st \<and>
         (bounded_retries st \<longrightarrow> bounded_retries (fold limit [c..<c'] st))"
  using assms
proof (induction c')
  case 0
  show ?case by simp
next
  case (Suc c')
  show ?case
  proof (cases "c \<le> c'")
    case False
    then show ?thesis by simp
  next
    case True
    let ?st = "fold limit [c..<c'] st"
    have eq: "fold limit [c..<Suc c'] st = limit c' ?st" using True by simp
    from Suc.prems have ih: "remaining ?st = remaining st \<and> (bounded_retries st \<longrightarrow> bounded_retries ?st)"
      by (intro Suc.IH) auto
    note fr = fold_limit_frame [of c c' st]
    from fr have len: "c' < length (tasks ?st)" using Suc.prems(1) by simp
    from fr have "tasks ?st ! c' = tasks st ! c'" by simp
    with Suc.prems(2) True have new: "tasks ?st ! c' = NotCreated" by simp
    show ?thesis
      unfolding eq using ih limit_budget [OF len new] by simp
  qed
qed

lemma iteration_budget:
  assumes "length (tasks st) = length docs"
    and "\<forall>j. i \<le> j \<and> j < length docs \<longrightarrow> tasks st ! j = NotCreated"
  shows "remaining (iteration docs i st) = remaining st \<and>
         (bounded_retries st \<longrightarrow> bounded_retries (iteration docs i st))"
proof (cases "i < length docs")
  case False
  then show ?thesis
    by (simp add: iteration_def remaining_def bounded_retries_def)
next
  case True
  note ub = upper_bounds [OF True]
  let ?st0 = "st\<lparr>control := Awaiting i, trace := trace st @ [BatchSliced i (slice docs i (i + batchSize))]\<rparr>"
  have it: "iteration docs i st = fold limit [i..<upper docs i] ?st0"
    using True by (simp add: iteration_def upper_def Let_def)
  have "remaining (fold limit [i..<upper docs i] ?st0) = remaining ?st0 \<and>
      (bounded_retries ?st0 \<longrightarrow> bounded_retries (fold limit [i..<upper docs i] ?st0))"
    using assms ub by (intro fold_limit_budget) auto
  then show ?thesis
    unfolding it by (simp add: remaining_def bounded_retries_def)
qed

lemma next_job_budget:
  assumes "queue st = [] \<or> (hd (queue st) < length (tasks st) \<and> tasks st ! hd (queue st) = Queued)"
  shows "remaining (next_job st) = remaining st \<and>
         (bounded_retries st \<longrightarrow> bounded_retries (next_job st))"
proof (cases "queue st")
  case Nil
  then show ?thesis by (simp add: next_job_Nil remaining_def bounded_retries_def)
next
  case (Cons q qs)
  with assms have q: "q < length (tasks st)" "tasks st ! q = Queued" by simp_all
  let ?a = "st\<lparr>tasks := (tasks st)[q := InFlight 0]\<rparr>"
  have t: "tasks (next_job st) = tasks ?a" by (simp add: next_job_Cons [OF Cons])
  have "remaining ?a = remaining st" using q by (simp add: remaining_update)
  moreover have "bounded_retries st \<Longrightarrow> bounded_retries ?a"
    by (simp add: bounded_retries_update)
  ultimately show ?thesis
    using t by (auto simp: remaining_def bounded_retries_def)
qed

lemma suspended_budget:
  assumes "suspended t" "retries_ok t"
  shows "0 < budget t"
  using assms by (cases t) auto

text \<open>Settling a task uses up what was left of its budget.\<close>

lemma settle_budget:
  assumes b: "batch_inv docs m c st" and j: "j < length docs" and susp: "suspended (tasks st ! j)"
    and bd: "bounded_retries st" and v: "budget v = 0" "retries_ok v"
  shows "remaining (next_job (st\<lparr>tasks := (tasks st)[j := v], trace := tr\<rparr>)) < remaining st \<and>
         bounded_retries (next_job (st\<lparr>tasks := (tasks st)[j := v], trace := tr\<rparr>))"
proof -
  let ?st1 = "st\<lparr>tasks := (tasks st)[j := v], trace := tr\<rparr>"
  from b have sh: "shape docs (m * batchSize) c st" by (simp add: batch_inv_def)
  then obtain q where len: "length (tasks st) = length docs" and c: "c \<le> length docs"
    and q: "queue st = [q..<c]" and queued: "\<forall>k. q \<le> k \<and> k < c \<longrightarrow> tasks st ! k = Queued"
    unfolding shape_def by blast
  from bd j len have "retries_ok (tasks st ! j)"
    by (simp add: bounded_retries_def list_all_length)
  with susp have pos: "0 < budget (tasks st ! j)" by (rule suspended_budget)
  have "remaining ?st1 = remaining (st\<lparr>tasks := (tasks st)[j := v]\<rparr>)"
    by (rule remaining_cong) simp
  also have "\<dots> = remaining st + budget v - budget (tasks st ! j)"
    using j len by (simp add: remaining_update)
  finally have less: "remaining ?st1 < remaining st"
    using pos v(1) budget_le_remaining [of j st] j len by simp
  have "bounded_retries (st\<lparr>tasks := (tasks st)[j := v]\<rparr>)"
    using bd v(2) by (rule bounded_retries_update)
  then have bd1: "bounded_retries ?st1"
    by (simp add: bounded_retries_def)
  have head: "queue ?st1 = [] \<or> (hd (queue ?st1) < length (tasks ?st1) \<and> tasks ?st1 ! hd (queue ?st1) = Queued)"
  proof (cases "q < c")
    case False
    with q show ?thesis by simp
  next
    case True
    then have hd: "hd (queue ?st1) = q" using q by (simp add: upt_conv_Cons)
    from True queued have "tasks st ! q = Queued" by simp
    moreover from this susp have "q \<noteq> j" by auto
    ultimately show ?thesis using hd True c len by simp
  qed
  from next_job_budget [OF head] less bd1 show ?thesis by simp
qed

lemma reject_budget:
  assumes inv: "invariant docs st" and j: "j < length docs" and susp: "suspended (tasks st ! j)"
    and bd: "bounded_retries st"
  shows "remaining (reject j err st) < remaining st \<and> bounded_retries (reject j err st)"
proof -
  from inv j susp obtain m where "batch_inv docs m (upper docs (m * batchSize)) st"
    by (rule invariant_suspended)
  from settle_budget [OF this j susp bd, of "Rejected err" "trace st @ [TaskRejected j err]"]
  show ?thesis
    by (auto simp: reject_def Let_def remaining_def bounded_retries_def split: control.splits)
qed

lemma fulfil_budget:
  assumes inv: "invariant docs st" and j: "j < length docs" and susp: "suspended (tasks st ! j)"
    and bd: "bounded_retries st"
  shows "remaining (fulfil docs j st) < remaining st \<and> bounded_retries (fulfil docs j st)"
proof -
  let ?st1 = "st\<lparr>tasks := (tasks st)[j := Fulfilled], trace := trace st @ [TaskFulfilled j]\<rparr>"
  let ?st' = "next_job ?st1"
  from inv j susp obtain m where m: "m * batchSize < length docs"
    and b: "batch_inv docs m (upper docs (m * batchSize)) st"
    and ctl: "control st = Awaiting (m * batchSize) \<or> (\<exists>err. control st = Failed err)"
    by (rule invariant_suspended)
  from settle_budget [OF b j susp bd, of Fulfilled "trace st @ [TaskFulfilled j]"]
  have st': "remaining ?st' < remaining st" "bounded_retries ?st'" by simp_all
  have b': "batch_inv docs m (upper docs (m * batchSize)) ?st'"
    using b j susp by (rule batch_inv_settle) simp
  note ub = upper_bounds [OF m]
  show ?thesis
  proof (cases "control ?st' = Awaiting (m * batchSize) \<and> batch_fulfilled docs (m * batchSize) ?st'")
    case False
    with ctl have "fulfil docs j st = ?st'"
      by (auto simp: fulfil_def Let_def next_job_frame split: control.splits)
    with st' show ?thesis by simp
  next
    case True
    let ?st2 = "?st'\<lparr>trace := trace ?st' @ [Progress (upper docs (m * batchSize)) (length docs)]\<rparr>"
    from True have f: "fulfil docs j st = iteration docs (m * batchSize + batchSize) ?st2"
      by (simp add: fulfil_def Let_def upper_def)
    from b' have len: "length (tasks ?st2) = length docs"
      and fresh: "\<forall>k. upper docs (m * batchSize) \<le> k \<and> k < length docs \<longrightarrow> tasks ?st2 ! k = NotCreated"
      by (simp_all add: batch_inv_def shape_def)
    from fresh ub have "\<forall>k. m * batchSize + batchSize \<le> k \<and> k < length docs \<longrightarrow> tasks ?st2 ! k = NotCreated"
      by simp
    from iteration_budget [OF len this]
    have "remaining (fulfil docs j st) = remaining ?st2"
      "bounded_retries ?st2 \<longrightarrow> bounded_retries (fulfil docs j st)"
      unfolding f by simp_all
    moreover have "remaining ?st2 = remaining ?st'" by (rule remaining_cong) simp
    moreover have "bounded_retries ?st2 = bounded_retries ?st'" by (rule bounded_retries_cong) simp
    ultimately show ?thesis using st' by simp
  qed
qed

lemma advance_budget:
  assumes inv: "invariant docs st" and bd: "bounded_retries st"
    and adv: "advance write docs j st = Some st'"
  shows "remaining st' < remaining st \<and> bounded_retries st'"
proof -
  from adv have j: "j < length (tasks st)" "j < length docs"
    by (auto simp: advance_def split: if_splits)
  from bd j have ok: "retries_ok (tasks st ! j)"
    by (simp add: bounded_retries_def list_all_length)
  have pre: "invariant docs (st\<lparr>world := w, trace := trace st @ [ev]\<rparr>)"
    if "suspended (tasks st ! j)" "\<not> milestone ev" "\<forall>k e. ev \<noteq> TaskRejected k e" "\<forall>k. ev \<noteq> WriteIssued k"
    for w ev
  proof -
    have "invariant docs (st\<lparr>world := w, tasks := (tasks st)[j := tasks st ! j],
        trace := trace st @ [ev]\<rparr>)"
      using inv j(2) that(1) that(1) by (rule invariant_stutter) (use that in simp)
    then show ?thesis by simp
  qed
  show ?thesis
  proof (cases "tasks st ! j")
    case (InFlight retries)
    then have susp: "suspended (tasks st ! j)" by simp
    from ok InFlight have r: "retries \<le> 2" by simp
    obtain res w where wr: "write (docs ! j) (world st) = (res, w)" by force
    show ?thesis
    proof (cases res)
      case (Inr v)
      let ?st0 = "st\<lparr>world := w, trace := trace st @ [WriteSucceeded j]\<rparr>"
      have st': "st' = fulfil docs j ?st0"
        using adv j InFlight wr Inr by (simp add: advance_def)
      have "remaining (fulfil docs j ?st0) < remaining ?st0 \<and> bounded_retries (fulfil docs j ?st0)"
        using pre [OF susp, of "WriteSucceeded j" w] j(2) susp bd
        by (intro fulfil_budget) (simp_all add: bounded_retries_def)
      then show ?thesis unfolding st' by (simp add: remaining_def)
    next
      case (Inl err)
      show ?thesis
      proof (cases "rat_of_nat (retries + 1) = defaultMaxRetries")
        case True
        let ?st0 = "st\<lparr>world := w, trace := trace st @ [WriteFailed j err]\<rparr>"
        have st': "st' = reject j err ?st0"
          using adv j InFlight wr Inl True by (simp add: advance_def)
        have "remaining (reject j err ?st0) < remaining ?st0 \<and> bounded_retries (reject j err ?st0)"
          using pre [OF susp, of "WriteFailed j err" w] j(2) susp bd
          by (intro reject_budget) (simp_all add: bounded_retries_def)
        then show ?thesis unfolding st' by (simp add: remaining_def)
      next
        case False
        with r have r1: "retries \<le> 1" by (simp add: defaultMaxRetries_def)
        have "st' = st\<lparr>world := w, tasks := (tasks st)[j := Sleeping (retries + 1)],
            trace := trace st @
              [WriteFailed j err,
               RetryLogged j (retries + 1) (defaultInitialDelay * 2 ^ (retries + 1)),
               TimerStarted j (defaultInitialDelay * 2 ^ (retries + 1))]\<rparr>"
          using adv j InFlight wr Inl False by (simp add: advance_def)
        then have t: "tasks st' = tasks (st\<lparr>tasks := (tasks st)[j := Sleeping (retries + 1)]\<rparr>)"
          by simp
        have "remaining (st\<lparr>tasks := (tasks st)[j := Sleeping (retries + 1)]\<rparr>) < remaining st"
          using j r1 InFlight budget_le_remaining [of j st] by (simp add: remaining_update)
        moreover have "bounded_retries (st\<lparr>tasks := (tasks st)[j := Sleeping (retries + 1)]\<rparr>)"
          using bd r1 by (intro bounded_retries_update) simp_all
        ultimately show ?thesis
          using remaining_cong [OF t] bounded_retries_cong [OF t] by simp
      qed
    qed
  next
    case (Sleeping retries)
    then have susp: "suspended (tasks st ! j)" by simp
    from ok Sleeping have r: "1 \<le> retries" "retries \<le> 2" by simp_all
    then have "rat_of_nat retries < defaultMaxRetries" by (simp add: defaultMaxRetries_def)
    then have "st' = st\<lparr>tasks := (tasks st)[j := InFlight retries],
        trace := trace st @ [TimerFired j, WriteIssued j]\<rparr>"
      using adv j Sleeping by (simp add: advance_def)
    then have t: "tasks st' = tasks (st\<lparr>tasks := (tasks st)[j := InFlight retries]\<rparr>)"
      by simp
    have "remaining (st\<lparr>tasks := (tasks st)[j := InFlight retries]\<rparr>) < remaining st"
      using j r Sleeping budget_le_remaining [of j st] by (simp add: remaining_update)
    moreover have "bounded_retries (st\<lparr>tasks := (tasks st)[j := InFlight retries]\<rparr>)"
      using bd r by (intro bounded_retries_update) simp_all
    ultimately show ?thesis
      using remaining_cong [OF t] bounded_retries_cong [OF t] by simp
  qed (use adv j in \<open>simp_all add: advance_def\<close>)
qed

lemma run_budget:
  "invariant docs st \<Longrightarrow> bounded_retries st \<Longrightarrow> run write docs schedule st = Some st' \<Longrightarrow>
   length schedule + remaining st' \<le> remaining st"
proof (induction schedule arbitrary: st)
  case Nil
  then show ?case by simp
next
  case (Cons j schedule)
  from Cons.prems(3) obtain st1 where a: "advance write docs j st = Some st1"
    and r: "run write docs schedule st1 = Some st'"
    by (auto split: option.splits)
  from advance_budget [OF Cons.prems(1,2) a]
  have "remaining st1 < remaining st" "bounded_retries st1" by simp_all
  with Cons.IH [OF advance_invariant [OF Cons.prems(1) a] _ r] show ?case by simp
qed

lemma initial_budget:
  "remaining (initializeVectorStore docs w :: ('d, 's, 'e) store_state) = 5 * length docs \<and>
   bounded_retries (initializeVectorStore docs w :: ('d, 's, 'e) store_state)"
proof -
  let ?st = "\<lparr>world = w, tasks = replicate (length docs) NotCreated, activeCount = 0, queue = [],
        control = Awaiting 0, trace = []\<rparr> :: ('d, 's, 'e) store_state"
  have "remaining (iteration docs 0 ?st) = remaining ?st \<and>
      (bounded_retries ?st \<longrightarrow> bounded_retries (iteration docs 0 ?st))"
    by (rule iteration_budget) simp_all
  moreover have "remaining ?st = 5 * length docs"
    by (simp add: remaining_def sum_list_replicate)
  moreover have "bounded_retries ?st"
    by (simp add: bounded_retries_def list_all_length)
  ultimately show ?thesis
    by (simp add: initializeVectorStore_def)
qed

text \<open>Every run is finite, and a run that is not at rest can go on.\<close>

lemma run_bounded:
  fixes st :: "('a, 'b, 'c) store_state"
  assumes "run write docs schedule (initializeVectorStore docs w) = Some st"
  shows "length schedule \<le> 5 * length docs"
proof -
  have "remaining (initializeVectorStore docs w :: ('a, 'b, 'c) store_state) = 5 * length docs \<and>
      bounded_retries (initializeVectorStore docs w :: ('a, 'b, 'c) store_state)"
    by (rule initial_budget)
  with run_budget [OF invariant_initial _ assms] show ?thesis by simp
qed

lemma not_quiescent_enabled:
  assumes "run write docs schedule (initializeVectorStore docs w) = Some st" "\<not> quiescent st"
  shows "\<exists>j st'. advance write docs j st = Some st'"
proof -
  from assms(1) have inv: "invariant docs st" by (rule reachable_invariant)
  from assms(2) obtain j where j: "j < length (tasks st)" "suspended (tasks st ! j)"
    by (auto simp: quiescent_def list_ex_iff in_set_conv_nth)
  have "length (tasks st) = length docs"
    using inv by (cases "control st") (auto simp: invariant_def batch_inv_def shape_def)
  with j have "advance write docs j st \<noteq> None"
    by (cases "tasks st ! j") (auto simp: advance_def split: prod.splits sum.splits)
  then show ?thesis by auto
qed

text \<open>
  For an input of one document the transition system and \<open>retryWithBackoff\<close> agree:
  the run of the only task to rest has the events, the final world and the completion
  of \<open>retryWithBackoff\<close> called with the default arguments on the write of that document.
\<close>

lemma single_start:
  "initializeVectorStore [d] w =
     \<lparr>world = w, tasks = [InFlight 0], activeCount = 1, queue = [], control = Awaiting 0,
      trace = [BatchSliced 0 [d], WriteIssued 0]\<rparr>"
  by (simp add: initializeVectorStore_def iteration_def slice_def batchSize_def limit_def
      concurrency_def run_job_def)

lemma single_document:
  "\<exists>k st. run write [d] (replicate k 0) (initializeVectorStore [d] w) = Some st \<and>
           quiescent st \<and>
           concat (map (retry_view 0) (trace st)) = events (retryWithBackoff_default (write d) w) \<and>
           world st = fst (snd (retryWithBackoff_default (write d) w)) \<and>
           tasks st = [settled_as (outcome (retryWithBackoff_default (write d) w))]"
proof -
  obtain a0 w1 where s0: "write d w = (a0, w1)" by force
  obtain a1 w2 where s1: "write d w1 = (a1, w2)" by force
  obtain a2 w3 where s2: "write d w2 = (a2, w3)" by force
  have at: "attempt (write d) w 0 = a0" "attempt (write d) w 1 = a1" "attempt (write d) w 2 = a2"
    and wb: "world_before (write d) w 1 = w1" "world_before (write d) w 2 = w2"
      "world_before (write d) w 3 = w3"
    using s0 s1 s2 by (simp_all add: attempt_def world_before_def eval_nat_numeral)
  note defs = single_start advance_def fulfil_def reject_def next_job_def batch_fulfilled_def
    iteration_def slice_def batchSize_def defaultMaxRetries_def defaultInitialDelay_def
    quiescent_def suspended_def settled_as_def outcome_def events_def backoff_def
    retryWithBackoff_default_def
  show ?thesis
  proof (cases a0)
    case (Inr v)
    have r: "retryWithBackoff (write d) 3 1000 w = (Returned v, w1, backoff 1000 0 0 @ [Invoked])"
      using retryWithBackoff_success [of 0 "write d" w v 3 1000] at wb Inr by simp
    show ?thesis
      by (intro exI [of _ 1] exI conjI) (simp add: defs s0 Inr r)+
  next
    case e0: (Inl e0)
    show ?thesis
    proof (cases a1)
      case (Inr v)
      have "\<forall>k<1. isl (attempt (write d) w k)" using at e0 by simp
      then have r: "retryWithBackoff (write d) 3 1000 w = (Returned v, w2, backoff 1000 0 1 @ [Invoked])"
        using retryWithBackoff_success [of 1 "write d" w v 3 1000] at wb Inr
        by (simp add: eval_nat_numeral)
      show ?thesis
        by (intro exI [of _ 3] exI conjI) (simp add: defs s0 s1 e0 Inr r eval_nat_numeral)+
    next
      case e1: (Inl e1)
      show ?thesis
      proof (cases a2)
        case (Inr v)
        have "\<forall>k<2. isl (attempt (write d) w k)" using at e0 e1 by (simp add: less_Suc_eq eval_nat_numeral)
        then have r: "retryWithBackoff (write d) 3 1000 w = (Returned v, w3, backoff 1000 0 2 @ [Invoked])"
          using retryWithBackoff_success [of 2 "write d" w v 3 1000] at wb Inr
          by (simp add: eval_nat_numeral)
        show ?thesis
          by (intro exI [of _ 5] exI conjI) (simp add: defs s0 s1 s2 e0 e1 Inr r eval_nat_numeral upt_conv_Cons)+
      next
        case e2: (Inl e2)
        have "\<forall>k\<le>2. isl (attempt (write d) w k)" using at e0 e1 e2 by (simp add: le_Suc_eq eval_nat_numeral)
        then have r: "retryWithBackoff (write d) 3 1000 w = (Raised e2, w3, backoff 1000 0 2 @ [Invoked])"
          using retryWithBackoff_exhaust [of 2 "write d" w 3 1000] at wb e2
          by (simp add: eval_nat_numeral)
        show ?thesis
          by (intro exI [of _ 5] exI conjI) (simp add: defs s0 s1 s2 e0 e1 e2 r eval_nat_numeral upt_conv_Cons)+
      qed
    qed
  qed
qed

text \<open>
  The store's answers are accounted for: the trace records the writes as the store
  performed them.
\<close>

lemma answers_append: "answers (tr @ evs) = answers tr @ answers evs"
  by (simp add: answers_def)

lemma answers_succeeded: "(k, None) \<in> set (answers tr) \<longleftrightarrow> WriteSucceeded k \<in> set tr"
proof (induction tr)
  case Nil
  show ?case by (simp add: answers_def)
next
  case (Cons ev tr)
  have "(k, None) \<in> set (answer_of ev) \<longleftrightarrow> ev = WriteSucceeded k"
    by (cases ev) auto
  with Cons show ?case by (auto simp: answers_def)
qed

lemma replay_append:
  "replay write docs (xs @ ys) w =
     (case replay write docs xs w of None \<Rightarrow> None | Some w' \<Rightarrow> replay write docs ys w')"
  by (induction xs arbitrary: w) (auto split: prod.splits sum.splits)

lemma follows_refl: "follows st st"
  by (simp add: follows_def)

lemma follows_trans:
  assumes "follows st st'" and "follows st' st''"
  shows "follows st st''"
proof -
  have "tasks st'' ! k = tasks st ! k \<or> tasks st'' ! k = Queued \<or>
      (tasks st'' ! k = InFlight 0 \<and> WriteIssued k \<in> set (trace st''))"
    if k: "k < length (tasks st)" for k
  proof -
    from assms(1) k have a: "tasks st' ! k = tasks st ! k \<or> tasks st' ! k = Queued \<or>
        (tasks st' ! k = InFlight 0 \<and> WriteIssued k \<in> set (trace st'))"
      by (simp add: follows_def)
    from assms k have b: "tasks st'' ! k = tasks st' ! k \<or> tasks st'' ! k = Queued \<or>
        (tasks st'' ! k = InFlight 0 \<and> WriteIssued k \<in> set (trace st''))"
      by (simp add: follows_def)
    from assms(2) have "set (trace st') \<subseteq> set (trace st'')" by (simp add: follows_def)
    with a b show ?thesis by auto
  qed
  with assms show ?thesis by (auto simp: follows_def)
qed

lemma follows_fields:
  assumes "tasks st' = tasks st" "world st' = world st" "answers (trace st') = answers (trace st)"
    "set (trace st) \<subseteq> set (trace st')"
  shows "follows st st'"
  using assms by (simp add: follows_def)

lemma follows_run_job: "follows st (run_job j st)"
proof -
  have "(tasks st)[j := InFlight 0] ! k = tasks st ! k \<or> (tasks st)[j := InFlight 0] ! k = Queued \<or>
      ((tasks st)[j := InFlight 0] ! k = InFlight 0 \<and> k = j)" if "k < length (tasks st)" for k
    using that by (cases "k = j") simp_all
  then show ?thesis
    by (auto simp: follows_def run_job_def answers_append answers_def)
qed

lemma follows_limit: "follows st (limit j st)"
proof (cases "activeCount st < concurrency")
  case True
  then show ?thesis by (simp add: limit_def follows_run_job)
next
  case False
  have "(tasks st)[j := Queued] ! k = tasks st ! k \<or> (tasks st)[j := Queued] ! k = Queued"
    if "k < length (tasks st)" for k
    using that by (cases "k = j") simp_all
  with False show ?thesis
    by (auto simp: follows_def limit_def)
qed

lemma follows_fold_limit: "follows st (fold limit js st)"
proof (induction js arbitrary: st)
  case Nil
  show ?case by (simp add: follows_refl)
next
  case (Cons j js)
  have "follows st (limit j st)" by (rule follows_limit)
  moreover have "follows (limit j st) (fold limit js (limit j st))" by (rule Cons.IH)
  ultimately show ?case by (simp add: follows_trans)
qed

lemma follows_next_job: "follows st (next_job st)"
proof (cases "queue st")
  case Nil
  then show ?thesis by (simp add: next_job_def follows_def)
next
  case (Cons j js)
  let ?st = "st\<lparr>activeCount := activeCount st - 1, queue := js\<rparr>"
  have "follows st ?st" by (simp add: follows_def)
  moreover have "follows ?st (run_job j ?st)" by (rule follows_run_job)
  ultimately have "follows st (run_job j ?st)" by (rule follows_trans)
  with Cons show ?thesis by (simp add: next_job_def)
qed

lemma follows_iteration: "follows st (iteration docs i st)"
proof (cases "i < length docs")
  case False
  then show ?thesis by (simp add: iteration_def follows_def)
next
  case True
  let ?st = "st\<lparr>control := Awaiting i, trace := trace st @ [BatchSliced i (slice docs i (i + batchSize))]\<rparr>"
  have "follows st ?st" by (auto simp: follows_def answers_append answers_def)
  moreover have "follows ?st (fold limit [i..<i + length (slice docs i (i + batchSize))] ?st)"
    by (rule follows_fold_limit)
  ultimately have "follows st (fold limit [i..<i + length (slice docs i (i + batchSize))] ?st)"
    by (rule follows_trans)
  with True show ?thesis by (simp add: iteration_def Let_def)
qed

lemma follows_fulfil:
  "follows (st\<lparr>tasks := (tasks st)[j := Fulfilled], trace := trace st @ [TaskFulfilled j]\<rparr>)
     (fulfil docs j st)"
proof -
  let ?st1 = "st\<lparr>tasks := (tasks st)[j := Fulfilled], trace := trace st @ [TaskFulfilled j]\<rparr>"
  let ?st' = "next_job ?st1"
  have n: "follows ?st1 ?st'" by (rule follows_next_job)
  have p: "follows ?st' (iteration docs i' (?st'\<lparr>trace := trace ?st' @ [Progress a b]\<rparr>))" for i' a b
  proof -
    have "follows ?st' (?st'\<lparr>trace := trace ?st' @ [Progress a b]\<rparr>)"
      by (auto simp: follows_def answers_append answers_def)
    moreover have "follows (?st'\<lparr>trace := trace ?st' @ [Progress a b]\<rparr>)
        (iteration docs i' (?st'\<lparr>trace := trace ?st' @ [Progress a b]\<rparr>))"
      by (rule follows_iteration)
    ultimately show ?thesis by (rule follows_trans)
  qed
  have "follows ?st' (fulfil docs j st)"
    using p by (simp add: fulfil_def Let_def follows_refl split: control.splits)
  with n show ?thesis by (rule follows_trans)
qed

lemma follows_reject:
  "follows (st\<lparr>tasks := (tasks st)[j := Rejected err], trace := trace st @ [TaskRejected j err]\<rparr>)
     (reject j err st)"
proof -
  let ?st1 = "st\<lparr>tasks := (tasks st)[j := Rejected err], trace := trace st @ [TaskRejected j err]\<rparr>"
  let ?st' = "next_job ?st1"
  have n: "follows ?st1 ?st'" by (rule follows_next_job)
  have "follows ?st' (?st'\<lparr>control := c\<rparr>)" for c by (simp add: follows_def)
  then have "follows ?st' (reject j err st)"
    by (simp add: reject_def Let_def follows_refl split: control.splits)
  with n show ?thesis by (rule follows_trans)
qed

lemma accounted_follows:
  assumes "accounted st" and "follows st st'"
  shows "accounted st'"
proof -
  from assms(2) have len: "length (tasks st') = length (tasks st)"
    and sub: "set (trace st) \<subseteq> set (trace st')"
    and ans: "answers (trace st') = answers (trace st)"
    and each: "\<forall>k<length (tasks st).
        tasks st' ! k = tasks st ! k \<or> tasks st' ! k = Queued \<or>
        (tasks st' ! k = InFlight 0 \<and> WriteIssued k \<in> set (trace st'))"
    by (simp_all add: follows_def)
  have same: "WriteSucceeded k \<in> set (trace st') \<longleftrightarrow> WriteSucceeded k \<in> set (trace st)" for k
    using ans answers_succeeded [of k "trace st'"] answers_succeeded [of k "trace st"] by simp
  show ?thesis
    unfolding accounted_def
  proof (intro conjI allI impI)
    fix k assume k: "k < length (tasks st')" and f: "tasks st' ! k = Fulfilled"
    from k len each f have "tasks st ! k = Fulfilled" by auto
    with assms(1) k len have "WriteSucceeded k \<in> set (trace st)" by (simp add: accounted_def)
    then show "WriteSucceeded k \<in> set (trace st')" by (simp add: same)
  next
    fix k retries assume k: "k < length (tasks st')" and f: "tasks st' ! k = InFlight retries"
    from k len each f have "tasks st ! k = InFlight retries \<or> WriteIssued k \<in> set (trace st')" by auto
    moreover have "WriteIssued k \<in> set (trace st)" if "tasks st ! k = InFlight retries"
      using assms(1) k len that by (auto simp: accounted_def)
    ultimately show "WriteIssued k \<in> set (trace st')" using sub by auto
  next
    fix k assume "WriteSucceeded k \<in> set (trace st')"
    then have "WriteSucceeded k \<in> set (trace st)" by (simp add: same)
    with assms(1) have "WriteIssued k \<in> set (trace st)" by (simp add: accounted_def)
    with sub show "WriteIssued k \<in> set (trace st')" by auto
  qed
qed

lemma replay_follows:
  assumes "replay write docs (answers (trace st)) w0 = Some (world st)" and "follows st st'"
  shows "replay write docs (answers (trace st')) w0 = Some (world st')"
  using assms by (simp add: follows_def)

lemma advance_accounted:
  assumes bd: "bounded_retries st" and adv: "advance write docs j st = Some st'"
    and acc: "accounted st" and rep: "replay write docs (answers (trace st)) w0 = Some (world st)"
  shows "accounted st' \<and> replay write docs (answers (trace st')) w0 = Some (world st')"
proof -
  from adv have j: "j < length (tasks st)" "j < length docs"
    by (auto simp: advance_def split: if_splits)
  from bd j have ok: "retries_ok (tasks st ! j)"
    by (simp add: bounded_retries_def list_all_length)
  have other: "(tasks st)[j := v] ! k = tasks st ! k" if "k \<noteq> j" for k v
    using that by simp
  show ?thesis
  proof (cases "tasks st ! j")
    case (InFlight retries)
    with acc j have issued: "WriteIssued j \<in> set (trace st)" by (auto simp: accounted_def)
    obtain res w where wr: "write (docs ! j) (world st) = (res, w)" by force
    show ?thesis
    proof (cases res)
      case (Inr v)
      let ?st0 = "st\<lparr>world := w, trace := trace st @ [WriteSucceeded j]\<rparr>"
      let ?st1 = "?st0\<lparr>tasks := (tasks ?st0)[j := Fulfilled], trace := trace ?st0 @ [TaskFulfilled j]\<rparr>"
      have st': "st' = fulfil docs j ?st0"
        using adv j InFlight wr Inr by (simp add: advance_def)
      have f: "follows ?st1 st'" unfolding st' by (rule follows_fulfil)
      have a1: "accounted ?st1"
        unfolding accounted_def
      proof (intro conjI allI impI)
        fix k assume "k < length (tasks ?st1)" "tasks ?st1 ! k = Fulfilled"
        then show "WriteSucceeded k \<in> set (trace ?st1)"
          using acc by (cases "k = j") (auto simp: accounted_def)
      next
        fix k r assume "k < length (tasks ?st1)" "tasks ?st1 ! k = InFlight r"
        then show "WriteIssued k \<in> set (trace ?st1)"
          using acc j by (cases "k = j") (auto simp: accounted_def)
      next
        fix k assume "WriteSucceeded k \<in> set (trace ?st1)"
        then show "WriteIssued k \<in> set (trace ?st1)"
          using acc issued by (auto simp: accounted_def)
      qed
      have r1: "replay write docs (answers (trace ?st1)) w0 = Some (world ?st1)"
        using rep wr Inr j by (simp add: answers_append replay_append) (simp add: answers_def)
      from accounted_follows [OF a1 f] replay_follows [OF r1 f] show ?thesis by simp
    next
      case (Inl err)
      show ?thesis
      proof (cases "rat_of_nat (retries + 1) = defaultMaxRetries")
        case True
        let ?st0 = "st\<lparr>world := w, trace := trace st @ [WriteFailed j err]\<rparr>"
        let ?st1 = "?st0\<lparr>tasks := (tasks ?st0)[j := Rejected err], trace := trace ?st0 @ [TaskRejected j err]\<rparr>"
        have st': "st' = reject j err ?st0"
          using adv j InFlight wr Inl True by (simp add: advance_def)
        have f: "follows ?st1 st'" unfolding st' by (rule follows_reject)
        have a1: "accounted ?st1"
          unfolding accounted_def
        proof (intro conjI allI impI)
          fix k assume "k < length (tasks ?st1)" "tasks ?st1 ! k = Fulfilled"
          then show "WriteSucceeded k \<in> set (trace ?st1)"
            using acc by (cases "k = j") (auto simp: accounted_def)
        next
          fix k r assume "k < length (tasks ?st1)" "tasks ?st1 ! k = InFlight r"
          then show "WriteIssued k \<in> set (trace ?st1)"
            using acc j by (cases "k = j") (auto simp: accounted_def)
        next
          fix k assume "WriteSucceeded k \<in> set (trace ?st1)"
          then show "WriteIssued k \<in> set (trace ?st1)"
            using acc by (auto simp: accounted_def)
        qed
        have r1: "replay write docs (answers (trace ?st1)) w0 = Some (world ?st1)"
          using rep wr Inl j by (simp add: answers_append replay_append) (simp add: answers_def)
        from accounted_follows [OF a1 f] replay_follows [OF r1 f] show ?thesis by simp
      next
        case False
        have st': "st' = st\<lparr>world := w, tasks := (tasks st)[j := Sleeping (retries + 1)],
            trace := trace st @
              [WriteFailed j err,
               RetryLogged j (retries + 1) (defaultInitialDelay * 2 ^ (retries + 1)),
               TimerStarted j (defaultInitialDelay * 2 ^ (retries + 1))]\<rparr>"
          using adv j InFlight wr Inl False by (simp add: advance_def)
        have a1: "accounted st'"
          unfolding accounted_def
        proof (intro conjI allI impI)
          fix k assume "k < length (tasks st')" "tasks st' ! k = Fulfilled"
          then show "WriteSucceeded k \<in> set (trace st')"
            using acc unfolding st' by (cases "k = j") (auto simp: accounted_def)
        next
          fix k r assume "k < length (tasks st')" "tasks st' ! k = InFlight r"
          then show "WriteIssued k \<in> set (trace st')"
            using acc j unfolding st' by (cases "k = j") (auto simp: accounted_def)
        next
          fix k assume "WriteSucceeded k \<in> set (trace st')"
          then show "WriteIssued k \<in> set (trace st')"
            using acc unfolding st' by (auto simp: accounted_def)
        qed
        have r1: "replay write docs (answers (trace st')) w0 = Some (world st')"
          using rep wr Inl j unfolding st'
          by (simp add: answers_append replay_append) (simp add: answers_def)
        from a1 r1 show ?thesis by simp
      qed
    qed
  next
    case (Sleeping retries)
    from ok Sleeping have r: "1 \<le> retries" "retries \<le> 2" by simp_all
    then have "rat_of_nat retries < defaultMaxRetries" by (simp add: defaultMaxRetries_def)
    then have st': "st' = st\<lparr>tasks := (tasks st)[j := InFlight retries],
        trace := trace st @ [TimerFired j, WriteIssued j]\<rparr>"
      using adv j Sleeping by (simp add: advance_def)
    have a1: "accounted st'"
      unfolding accounted_def
    proof (intro conjI allI impI)
      fix k assume "k < length (tasks st')" "tasks st' ! k = Fulfilled"
      then show "WriteSucceeded k \<in> set (trace st')"
        using acc unfolding st' by (cases "k = j") (auto simp: accounted_def)
    next
      fix k r assume "k < length (tasks st')" "tasks st' ! k = InFlight r"
      then show "WriteIssued k \<in> set (trace st')"
        using acc j unfolding st' by (cases "k = j") (auto simp: accounted_def)
    next
      fix k assume "WriteSucceeded k \<in> set (trace st')"
      then show "WriteIssued k \<in> set (trace st')"
        using acc unfolding st' by (auto simp: accounted_def)
    qed
    have r1: "replay write docs (answers (trace st')) w0 = Some (world st')"
      using rep unfolding st' by (simp add: answers_append) (simp add: answers_def)
    from a1 r1 show ?thesis by simp
  qed (use adv j in \<open>simp_all add: advance_def\<close>)
qed

lemma run_accounted:
  "invariant docs st \<Longrightarrow> bounded_retries st \<Longrightarrow> accounted st \<Longrightarrow>
   replay write docs (answers (trace st)) w0 = Some (world st) \<Longrightarrow>
   run write docs schedule st = Some st' \<Longrightarrow>
   accounted st' \<and> replay write docs (answers (trace st')) w0 = Some (world st')"
proof (induction schedule arbitrary: st)
  case Nil
  then show ?case by simp
next
  case (Cons j schedule)
  from Cons.prems(5) obtain st1 where a: "advance write docs j st = Some st1"
    and r: "run write docs schedule st1 = Some st'"
    by (auto split: option.splits)
  from advance_budget [OF Cons.prems(1,2) a] have bd: "bounded_retries st1" by simp
  from advance_accounted [OF Cons.prems(2) a Cons.prems(3,4)]
  have "accounted st1" "replay write docs (answers (trace st1)) w0 = Some (world st1)" by simp_all
  from Cons.IH [OF advance_invariant [OF Cons.prems(1) a] bd this r] show ?case .
qed

lemma reachable_accounted:
  fixes st :: "('d, 's, 'e) store_state"
  assumes "run write docs schedule (initializeVectorStore docs w) = Some st"
  shows "accounted st \<and> replay write docs (answers (trace st)) w = Some (world st)"
proof -
  let ?st0 = "\<lparr>world = w, tasks = replicate (length docs) NotCreated, activeCount = 0, queue = [],
        control = Awaiting 0, trace = []\<rparr> :: ('d, 's, 'e) store_state"
  let ?init = "initializeVectorStore docs w :: ('d, 's, 'e) store_state"
  have f: "follows ?st0 ?init"
    unfolding initializeVectorStore_def by (rule follows_iteration)
  have "accounted ?st0" by (simp add: accounted_def)
  then have a: "accounted ?init" using f by (rule accounted_follows)
  have "replay write docs (answers (trace ?st0)) w = Some (world ?st0)" by (simp add: answers_def)
  then have r: "replay write docs (answers (trace ?init)) w = Some (world ?init)"
    using f by (rule replay_follows)
  have "remaining ?init = 5 * length docs \<and> bounded_retries ?init" by (rule initial_budget)
  then have bd: "bounded_retries ?init" by simp
  from run_accounted [OF invariant_initial bd a r assms] show ?thesis .
qed

text \<open>
  C2. For an input of 120 chunks, every run of \<open>initializeVectorStore\<close> consists of at
  most 600 events, and as long as it is not at rest a further event can be delivered.
  At every moment the trace records the writes as the store performed them: replaying
  the completed write requests from the world of the call gives the present world. In
  every run that has come to rest without a write running out of retries, the function
  has returned, and

  \<^item> it has sliced exactly three batches, at 0, 50 and 100, of sizes 50, 50 and 20, which
    together are the input in order;
  \<^item> it has processed them: the task of every one of the 120 documents is fulfilled, a
    write was issued for each of them and for nothing else, and for each of them a
    write has succeeded;
  \<^item> in program order: every write was issued after the task of every document of every
    earlier batch was fulfilled, and each batch was sliced after the progress line of
    the batch before it;
  \<^item> it has reported progress exactly three times, 50, 100 and 120 out of 120.
\<close>

theorem batches_and_progress:
  assumes "length docs = 120"
    and "run write docs schedule (initializeVectorStore docs w) = Some st"
  shows "length schedule \<le> 600 \<and>
         (\<not> quiescent st \<longrightarrow> (\<exists>j st'. advance write docs j st = Some st')) \<and>
         replay write docs (answers (trace st)) w = Some (world st) \<and>
         (quiescent st \<and> rejections (trace st) = [] \<longrightarrow>
            control st = Completed \<and>
            filter milestone (trace st) =
              [BatchSliced 0 (slice docs 0 50), Progress 50 120,
               BatchSliced 50 (slice docs 50 100), Progress 100 120,
               BatchSliced 100 (slice docs 100 150), Progress 120 120] \<and>
            batches (trace st) = [slice docs 0 50, slice docs 50 100, slice docs 100 150] \<and>
            map length (batches (trace st)) = [50, 50, 20] \<and>
            concat (batches (trace st)) = docs \<and>
            tasks st = replicate 120 Fulfilled \<and>
            {j. WriteIssued j \<in> set (trace st)} = {..<120} \<and>
            {j. WriteSucceeded j \<in> set (trace st)} = {..<120} \<and>
            sequenced (trace st) \<and>
            progress (trace st) = [(50, 120), (100, 120), (120, 120)])"
proof (intro conjI impI)
  show "length schedule \<le> 600"
    using run_bounded [OF assms(2)] assms(1) by simp
  show "\<exists>j st'. advance write docs j st = Some st'" if "\<not> quiescent st"
    using assms(2) that by (rule not_quiescent_enabled)
  show "replay write docs (answers (trace st)) w = Some (world st)"
    using reachable_accounted [OF assms(2)] by simp
next
  assume rest: "quiescent st \<and> rejections (trace st) = []"
  from assms(2) have inv: "invariant docs st" by (rule reachable_invariant)
  from reachable_accounted [OF assms(2)] have acc: "accounted st" by simp
  have ctl: "control st = Completed"
  proof (cases "control st")
    case (Awaiting i)
    with inv have "\<not> quiescent st" by (rule awaiting_not_quiescent)
    with rest show ?thesis by simp
  next
    case (Failed err)
    with inv rest show ?thesis by (auto simp: invariant_def)
  qed
  with inv assms(1) obtain m where m: "120 \<le> m * batchSize" "\<forall>k<m. k * batchSize < 120"
    and mil: "filter milestone (trace st) = reported docs m"
    by (auto simp: invariant_def)
  from ctl inv assms(1) have len: "length (tasks st) = 120"
    and ful: "\<forall>j<120. tasks st ! j = Fulfilled"
    and seq: "sequenced (trace st)"
    and dom: "\<forall>j. WriteIssued j \<in> set (trace st) \<longrightarrow> j < 120"
    by (simp_all add: invariant_def)
  have "3 \<le> m" using m(1) by (simp add: batchSize_def)
  moreover have "\<not> 3 < m"
  proof
    assume "3 < m"
    with m(2) have "3 * batchSize < 120" by blast
    then show False by (simp add: batchSize_def)
  qed
  ultimately have "m = 3" by simp
  have mil': "filter milestone (trace st) =
           [BatchSliced 0 (slice docs 0 50), Progress 50 120,
            BatchSliced 50 (slice docs 50 100), Progress 100 120,
            BatchSliced 100 (slice docs 100 150), Progress 120 120]"
    unfolding mil \<open>m = 3\<close> using assms(1) by (rule reported_three)
  have b: "batches (trace st) = [slice docs 0 50, slice docs 50 100, slice docs 100 150]"
    using batches_filter [of "trace st"] unfolding mil' by (simp add: batches_def)
  have p: "progress (trace st) = [(50, 120), (100, 120), (120, 120)]"
    using progress_filter [of "trace st"] unfolding mil' by (simp add: progress_def)
  have l: "map length (batches (trace st)) = [50, 50, 20]"
    unfolding b using three_slices(2,3,4) [OF assms(1)] by simp
  have c: "concat (batches (trace st)) = docs"
    unfolding b using three_slices(1) [OF assms(1)] by simp
  have succeeded: "WriteSucceeded j \<in> set (trace st)" if "j < 120" for j
    using acc len ful that by (simp add: accounted_def)
  have issued: "WriteIssued j \<in> set (trace st)" if "WriteSucceeded j \<in> set (trace st)" for j
    using acc that by (simp add: accounted_def)
  show "control st = Completed" by (rule ctl)
  show "filter milestone (trace st) =
           [BatchSliced 0 (slice docs 0 50), Progress 50 120,
            BatchSliced 50 (slice docs 50 100), Progress 100 120,
            BatchSliced 100 (slice docs 100 150), Progress 120 120]" by (rule mil')
  show "batches (trace st) = [slice docs 0 50, slice docs 50 100, slice docs 100 150]" by (rule b)
  show "map length (batches (trace st)) = [50, 50, 20]" by (rule l)
  show "concat (batches (trace st)) = docs" by (rule c)
  show "tasks st = replicate 120 Fulfilled"
    using len ful by (simp add: list_eq_iff_nth_eq)
  show "{j. WriteIssued j \<in> set (trace st)} = {..<120}"
    using dom succeeded issued by auto
  show "{j. WriteSucceeded j \<in> set (trace st)} = {..<120}"
    using dom succeeded issued by auto
  show "sequenced (trace st)" by (rule seq)
  show "progress (trace st) = [(50, 120), (100, 120), (120, 120)]" by (rule p)
qed

text \<open>
  C9. In every run of \<open>initializeVectorStore\<close>: a write of a document is issued only after
  the task of every document of every earlier batch has been fulfilled; and once a task
  has been rejected (its write failed with the retries used up), the function has thrown
  the error of the first rejection, no write of a document of a later batch has been
  issued and no task of a later batch exists, and the progress lines are those of the
  batches before the rejected task's batch and no more.
\<close>

theorem sequential_batches:
  assumes "run write docs schedule (initializeVectorStore docs w) = Some st"
  shows "(\<forall>p j j'. p < length (trace st) \<and> trace st ! p = WriteIssued j \<and>
            j' div batchSize < j div batchSize \<longrightarrow>
            (\<exists>p'<p. trace st ! p' = TaskFulfilled j')) \<and>
         (\<forall>j err. TaskRejected j err \<in> set (trace st) \<longrightarrow>
            control st = Failed (hd (rejections (trace st))) \<and>
            (\<forall>j'. j div batchSize < j' div batchSize \<longrightarrow>
               WriteIssued j' \<notin> set (trace st) \<and> (j' < length docs \<longrightarrow> tasks st ! j' = NotCreated)) \<and>
            length (progress (trace st)) = j div batchSize)"
proof -
  from assms have inv: "invariant docs st" by (rule reachable_invariant)
  have seq: "sequenced (trace st)"
    using inv by (cases "control st") (auto simp: invariant_def batch_inv_def history_def)
  have rejected: "control st = Failed (hd (rejections (trace st))) \<and>
            (\<forall>j'. j div batchSize < j' div batchSize \<longrightarrow>
               WriteIssued j' \<notin> set (trace st) \<and> (j' < length docs \<longrightarrow> tasks st ! j' = NotCreated)) \<and>
            length (progress (trace st)) = j div batchSize"
    if r: "TaskRejected j err \<in> set (trace st)" for j err
  proof -
    from r have ne: "rejections (trace st) \<noteq> []" by (auto simp: rejections_empty_iff)
    with inv obtain m where ctl: "control st = Failed (hd (rejections (trace st)))"
      and m: "m * batchSize < length docs"
      and b: "batch_inv docs m (upper docs (m * batchSize)) st"
      by (cases "control st") (auto simp: invariant_def)
    note ub = upper_bounds [OF m]
    from b have hi: "history docs m (upper docs (m * batchSize)) st"
      and sh: "shape docs (m * batchSize) (upper docs (m * batchSize)) st"
      by (simp_all add: batch_inv_def)
    from hi r have j: "m * batchSize \<le> j" "j < upper docs (m * batchSize)"
      by (auto simp: history_def)
    with ub have jm: "j div batchSize = m" by (intro batch_div) simp_all
    have later: "WriteIssued j' \<notin> set (trace st) \<and> (j' < length docs \<longrightarrow> tasks st ! j' = NotCreated)"
      if "j div batchSize < j' div batchSize" for j'
    proof -
      from that jm have "Suc m \<le> j' div batchSize" by simp
      then have "Suc m * batchSize \<le> j'"
        using batchSize_pos by (simp add: less_eq_div_iff_mult_less_eq)
      with ub have le: "upper docs (m * batchSize) \<le> j'" by simp
      with hi have "WriteIssued j' \<notin> set (trace st)" by (auto simp: history_def)
      moreover from sh le have "j' < length docs \<longrightarrow> tasks st ! j' = NotCreated"
        by (simp add: shape_def)
      ultimately show ?thesis by simp
    qed
    from hi have "length (progress (filter milestone (trace st))) = m"
      by (simp add: history_def progress_def length_progress_reported [unfolded progress_def])
    then have "length (progress (trace st)) = m" by (simp only: progress_filter)
    with ctl later jm show ?thesis by simp
  qed
  from seq rejected show ?thesis unfolding sequenced_def by blast
qed

lemma ingest_120:
  "(case run stored [0..<120] [0..<120] (initializeVectorStore [0..<120] (0::nat)) of
      None \<Rightarrow> False
    | Some st \<Rightarrow> quiescent st \<and> rejections (trace st) = [] \<and> world st = 120)"
  by code_simp

theorem batches_and_progress_witness:
  "control (the (run stored [0..<120] [0..<120] (initializeVectorStore [0..<120] (0::nat)))) = Completed \<and>
   tasks (the (run stored [0..<120] [0..<120] (initializeVectorStore [0..<120] (0::nat)))) =
     replicate 120 Fulfilled \<and>
   WriteSucceeded 119 \<in>
     set (trace (the (run stored [0..<120] [0..<120] (initializeVectorStore [0..<120] (0::nat))))) \<and>
   replay stored [0..<120]
     (answers (trace (the (run stored [0..<120] [0..<120] (initializeVectorStore [0..<120] (0::nat))))))
     0 = Some 120 \<and>
   progress (trace (the (run stored [0..<120] [0..<120] (initializeVectorStore [0..<120] (0::nat))))) =
     [(50, 120), (100, 120), (120, 120)]"
proof -
  define st where "st = the (run stored [0..<120] [0..<120] (initializeVectorStore [0..<120] (0::nat)))"
  from ingest_120 have r: "run stored [0..<120] [0..<120] (initializeVectorStore [0..<120] (0::nat)) = Some st"
    and q: "quiescent st" and n: "rejections (trace st) = []" and w: "world st = 120"
    by (auto simp: st_def split: option.splits)
  have l: "length [0..<120] = 120" by simp
  note all = batches_and_progress [OF l r]
  from all have "replay stored [0..<120] (answers (trace st)) 0 = Some (world st)" by blast
  then have rep: "replay stored [0..<120] (answers (trace st)) 0 = Some 120" by (simp only: w)
  from all q n have c: "control st = Completed" and t: "tasks st = replicate 120 Fulfilled"
    and s: "{j. WriteSucceeded j \<in> set (trace st)} = {..<120}"
    and p: "progress (trace st) = [(50, 120), (100, 120), (120, 120)]"
    by blast+
  have "(119::nat) \<in> {..<120}" by simp
  then have "119 \<in> {j. WriteSucceeded j \<in> set (trace st)}" by (simp only: s)
  then have last: "WriteSucceeded 119 \<in> set (trace st)" by (simp only: mem_Collect_eq)
  from c t last rep p show ?thesis
    unfolding st_def by blast
qed

lemma ingest_rejected:
  "(case run (rejecting 55) [0..<110] ([0..<51] @ [55, 55, 55, 55, 55])
          (initializeVectorStore [0..<110] (0::nat)) of
      None \<Rightarrow> False
    | Some st \<Rightarrow>
        TaskRejected 55 ''write failed'' \<in> set (trace st) \<and>
        rejections (trace st) = [''write failed''])"
  by code_simp

theorem sequential_batches_witness:
  "control (the (run (rejecting 55) [0..<110] ([0..<51] @ [55, 55, 55, 55, 55])
      (initializeVectorStore [0..<110] (0::nat)))) = Failed ''write failed'' \<and>
   length (progress (trace (the (run (rejecting 55) [0..<110] ([0..<51] @ [55, 55, 55, 55, 55])
      (initializeVectorStore [0..<110] (0::nat)))))) = 1 \<and>
   tasks (the (run (rejecting 55) [0..<110] ([0..<51] @ [55, 55, 55, 55, 55])
      (initializeVectorStore [0..<110] (0::nat)))) ! 100 = NotCreated \<and>
   WriteIssued 100 \<notin> set (trace (the (run (rejecting 55) [0..<110] ([0..<51] @ [55, 55, 55, 55, 55])
      (initializeVectorStore [0..<110] (0::nat)))))"
proof -
  define st where "st = the (run (rejecting 55) [0..<110] ([0..<51] @ [55, 55, 55, 55, 55])
      (initializeVectorStore [0..<110] (0::nat)))"
  from ingest_rejected
  have r: "run (rejecting 55) [0..<110] ([0..<51] @ [55, 55, 55, 55, 55])
      (initializeVectorStore [0..<110] (0::nat)) = Some st"
    and t: "TaskRejected 55 ''write failed'' \<in> set (trace st)"
    and n: "rejections (trace st) = [''write failed'']"
    by (auto simp: st_def split: option.splits)
  have d: "55 div batchSize = 1" "100 div batchSize = 2" by (simp_all add: batchSize_def)
  from sequential_batches [OF r] t
  have "control st = Failed (hd (rejections (trace st))) \<and>
      (\<forall>j'. 55 div batchSize < j' div batchSize \<longrightarrow>
         WriteIssued j' \<notin> set (trace st) \<and> (j' < length [0..<110] \<longrightarrow> tasks st ! j' = NotCreated)) \<and>
      length (progress (trace st)) = 55 div batchSize"
    by blast
  then have "control st = Failed ''write failed''" "length (progress (trace st)) = 1"
    "WriteIssued 100 \<notin> set (trace st) \<and> (100 < length [0..<110] \<longrightarrow> tasks st ! 100 = NotCreated)"
    using n d by auto
  then show ?thesis unfolding st_def by simp
qed

end
